theory Spec2Isabelle
  imports Complex_Main "HOL-Library.Word"
begin

section \<open>Python string primitives used by the program\<close>

text \<open>
  Python strings are modelled as \<open>string\<close> (lists of 8-bit characters). The
  whitespace test is the one of \<^verbatim>\<open>str.isspace\<close>, \<^verbatim>\<open>str.strip\<close> and
  \<^verbatim>\<open>str.split\<close> without arguments, restricted to the code points below 256:
  9 to 13, 28 to 32, 133 and 160.
\<close>

definition py_isspace :: "char \<Rightarrow> bool" where
  "py_isspace c =
     (let n = (of_char c :: nat)
      in (9 \<le> n \<and> n \<le> 13) \<or> (28 \<le> n \<and> n \<le> 32) \<or> n = 133 \<or> n = 160)"

definition lstrip :: "string \<Rightarrow> string" where
  "lstrip s = dropWhile py_isspace s"

definition rstrip :: "string \<Rightarrow> string" where
  "rstrip s = rev (dropWhile py_isspace (rev s))"

definition strip :: "string \<Rightarrow> string" where
  "strip s = lstrip (rstrip s)"

definition startswith :: "string \<Rightarrow> string \<Rightarrow> bool" where
  "startswith s p = (take (length p) s = p)"

definition endswith :: "string \<Rightarrow> string \<Rightarrow> bool" where
  "endswith s p = (length p \<le> length s \<and> drop (length s - length p) s = p)"

text \<open>\<^verbatim>\<open>sep.join(parts)\<close>\<close>

fun str_join :: "string \<Rightarrow> string list \<Rightarrow> string" where
  "str_join sep [] = []"
| "str_join sep [w] = w"
| "str_join sep (w # v # ws) = w @ sep @ str_join sep (v # ws)"

text \<open>
  \<^verbatim>\<open>text.split()\<close>: the maximal runs of non-whitespace characters, in order; runs
  of whitespace separate them and produce no empty word.
\<close>

function str_split :: "string \<Rightarrow> string list" where
  "str_split s =
     (let s' = dropWhile py_isspace s
      in if s' = [] then []
         else takeWhile (\<lambda>c. \<not> py_isspace c) s'
              # str_split (dropWhile (\<lambda>c. \<not> py_isspace c) s'))"
  by pat_completeness auto
termination
proof (relation "measure length", goal_cases)
  case 1
  show ?case by simp
next
  case (2 s s')
  have "length (dropWhile (\<lambda>c. \<not> py_isspace c) s') < length s'"
  proof (cases s')
    case Nil
    with 2 show ?thesis by simp
  next
    case (Cons c cs)
    with 2 have "\<not> py_isspace c"
      by (metis hd_dropWhile list.sel(1))
    with Cons show ?thesis
      by (simp add: le_imp_less_Suc length_dropWhile_le)
  qed
  moreover have "length s' \<le> length s"
    using 2 by (simp add: length_dropWhile_le)
  ultimately show ?case by simp
qed

declare str_split.simps [simp del]

section \<open>text\_inserter.py: TextInserter\<close>

text \<open>
  The keyboard controller is the sink of keystrokes: \<open>controller\<close> holds the
  characters typed so far, in order. The typing delay only sleeps and is left out.
\<close>

record TextInserter =
  controller :: string
  last_typed_text :: string
  is_typing_session_active :: bool

definition type_text_slowly :: "string \<Rightarrow> TextInserter \<Rightarrow> TextInserter" where
  "type_text_slowly text ti =
     foldl (\<lambda>t c. t\<lparr>controller := controller t @ [c]\<rparr>) ti text"

definition start_typing_session :: "TextInserter \<Rightarrow> TextInserter" where
  "start_typing_session ti = ti\<lparr>last_typed_text := [], is_typing_session_active := True\<rparr>"

definition end_typing_session :: "TextInserter \<Rightarrow> TextInserter" where
  "end_typing_session ti = ti\<lparr>is_typing_session_active := False\<rparr>"

definition clean_text :: "string \<Rightarrow> string" where
  "clean_text text =
     (let words = str_split text
      in if words = [] then []
         else let cleaned = str_join '' '' words
              in if endswith text '' '' \<or>
                    list_ex (\<lambda>p. endswith text (p @ '' '')) [''.'', ''!'', ''?'', '','']
                 then (if \<not> endswith cleaned '' '' then cleaned @ '' '' else cleaned)
                 else cleaned)"

definition insert_text :: "string \<Rightarrow> TextInserter \<Rightarrow> TextInserter" where
  "insert_text text ti =
     (if text = [] then ti
      else let cleaned_text = clean_text text
           in if cleaned_text = [] then ti
              else if cleaned_text = last_typed_text ti then ti
              else if last_typed_text ti \<noteq> [] \<and>
                      startswith cleaned_text (rstrip (last_typed_text ti))
              then (let new_part = drop (length (rstrip (last_typed_text ti))) cleaned_text
                    in if strip new_part \<noteq> []
                       then (type_text_slowly new_part ti)\<lparr>last_typed_text := cleaned_text\<rparr>
                       else ti)
              else (type_text_slowly cleaned_text ti)\<lparr>last_typed_text := cleaned_text\<rparr>)"

text \<open>
  The three rules of \<open>apply\<close> as the specification words them, on a given stable
  text: no-op on an empty or unchanged text; a text that begins with the right-trimmed
  previous text has its suffix typed when that suffix is not blank; any other text is
  typed in full.
\<close>

definition apply_rules :: "string \<Rightarrow> TextInserter \<Rightarrow> TextInserter" where
  "apply_rules stableText ti =
     (if stableText = [] \<or> stableText = last_typed_text ti then ti
      else if startswith stableText (rstrip (last_typed_text ti))
      then (let new_part = drop (length (rstrip (last_typed_text ti))) stableText
            in if strip new_part \<noteq> []
               then ti\<lparr>controller := controller ti @ new_part, last_typed_text := stableText\<rparr>
               else ti)
      else ti\<lparr>controller := controller ti @ stableText, last_typed_text := stableText\<rparr>)"

subsection \<open>Sequences of updates\<close>

text \<open>
  A sequence of calls of \<open>insert_text\<close>, the keystrokes each call adds to the sink, the
  suffix each text adds to the one before it, and the chain condition that each text
  begins with the one before it.
\<close>

fun insert_all :: "string list \<Rightarrow> TextInserter \<Rightarrow> TextInserter" where
  "insert_all [] ti = ti"
| "insert_all (t # ts) ti = insert_all ts (insert_text t ti)"

fun emitted_keystrokes :: "string list \<Rightarrow> TextInserter \<Rightarrow> string list" where
  "emitted_keystrokes [] ti = []"
| "emitted_keystrokes (t # ts) ti =
     drop (length (controller ti)) (controller (insert_text t ti))
     # emitted_keystrokes ts (insert_text t ti)"

fun successive_suffixes :: "string \<Rightarrow> string list \<Rightarrow> string list" where
  "successive_suffixes prev [] = []"
| "successive_suffixes prev (t # ts) = drop (length prev) t # successive_suffixes t ts"

fun prefix_chain :: "string \<Rightarrow> string list \<Rightarrow> bool" where
  "prefix_chain prev [] = True"
| "prefix_chain prev (t # ts) = (startswith t prev \<and> prefix_chain t ts)"

section \<open>websocket\_client.py: WebSocketClient\<close>

datatype error = AttributeError | TypeError | OverflowError | SendFailure

subsection \<open>Decoded messages\<close>

text \<open>
  The value \<^verbatim>\<open>json.loads\<close> returns. An object is the list of its members, looked up
  by key; of a number only whether it is zero matters to the program.
\<close>

datatype json =
  JNull | JBool bool | JNum int | JStr string | JArr "json list" | JObj "(string \<times> json) list"

text \<open>\<^verbatim>\<open>d.get(key, dflt)\<close>\<close>

definition dict_get :: "(string \<times> json) list \<Rightarrow> string \<Rightarrow> json \<Rightarrow> json" where
  "dict_get d key dflt = (case map_of d key of None \<Rightarrow> dflt | Some v \<Rightarrow> v)"

text \<open>The truth value of a decoded value in an \<^verbatim>\<open>if\<close>.\<close>

fun truthy :: "json \<Rightarrow> bool" where
  "truthy JNull = False"
| "truthy (JBool b) = b"
| "truthy (JNum n) = (n \<noteq> 0)"
| "truthy (JStr s) = (s \<noteq> [])"
| "truthy (JArr xs) = (xs \<noteq> [])"
| "truthy (JObj d) = (d \<noteq> [])"

text \<open>
  What \<^verbatim>\<open>for line in lines\<close> iterates over: the elements of a list, the characters
  of a string, the keys of an object; any other value is not iterable.
\<close>

fun py_iter :: "json \<Rightarrow> error + json list" where
  "py_iter (JArr xs) = Inr xs"
| "py_iter (JStr s) = Inr (map (\<lambda>c. JStr [c]) s)"
| "py_iter (JObj d) = Inr (map (\<lambda>kv. JStr (fst kv)) d)"
| "py_iter _ = Inl TypeError"

subsection \<open>\_extract\_transcription\<close>

text \<open>\<^verbatim>\<open>"  " in result\<close> and \<^verbatim>\<open>result.replace("  ", " ")\<close>\<close>

fun contains_double_space :: "string \<Rightarrow> bool" where
  "contains_double_space (a # b # r) =
     ((a = CHR '' '' \<and> b = CHR '' '') \<or> contains_double_space (b # r))"
| "contains_double_space r = False"

fun replace_double_space :: "string \<Rightarrow> string" where
  "replace_double_space (a # b # r) =
     (if a = CHR '' '' \<and> b = CHR '' '' then CHR '' '' # replace_double_space r
      else a # replace_double_space (b # r))"
| "replace_double_space r = r"

text \<open>The loop \<^verbatim>\<open>while "  " in result: result = result.replace("  ", " ")\<close>\<close>

function normalize_spaces :: "string \<Rightarrow> string" where
  "normalize_spaces result =
     (if contains_double_space result then normalize_spaces (replace_double_space result)
      else result)"
  by pat_completeness auto
termination
proof (relation "measure length", goal_cases)
  case 1
  show ?case by simp
next
  case (2 result)
  have le: "length (replace_double_space r) \<le> length r" for r
    by (induction r rule: replace_double_space.induct) auto
  have "contains_double_space r \<Longrightarrow> length (replace_double_space r) < length r" for r
  proof (induction r rule: replace_double_space.induct)
    case (1 a b r)
    show ?case
    proof (cases "a = CHR '' '' \<and> b = CHR '' ''")
      case True
      then show ?thesis using le [of r] by simp
    next
      case False
      with 1 show ?thesis by auto
    qed
  qed simp_all
  with 2 show ?case by simp
qed

declare normalize_spaces.simps [simp del]

text \<open>
  The loop over \<open>lines\<close>, with \<open>stable_text_parts\<close> as accumulator. A line that is not
  an object has no \<^verbatim>\<open>get\<close>, and a text that is true but not a string has no
  \<^verbatim>\<open>strip\<close>: both raise AttributeError.
\<close>

fun collect_stable_parts :: "json list \<Rightarrow> string list \<Rightarrow> error + string list" where
  "collect_stable_parts [] stable_text_parts = Inr stable_text_parts"
| "collect_stable_parts (JObj line # lines) stable_text_parts =
     (if truthy (dict_get line ''text'' JNull)
      then (case dict_get line ''text'' JNull of
              JStr s \<Rightarrow> collect_stable_parts lines (stable_text_parts @ [strip s])
            | _ \<Rightarrow> Inl AttributeError)
      else collect_stable_parts lines stable_text_parts)"
| "collect_stable_parts (_ # lines) stable_text_parts = Inl AttributeError"

fun extract_transcription :: "json \<Rightarrow> error + string" where
  "extract_transcription (JObj data) =
     (case py_iter (dict_get data ''lines'' (JArr [])) of
        Inl e \<Rightarrow> Inl e
      | Inr lines \<Rightarrow>
          (case collect_stable_parts lines [] of
             Inl e \<Rightarrow> Inl e
           | Inr stable_text_parts \<Rightarrow>
               Inr (normalize_spaces
                      (if stable_text_parts \<noteq> [] then strip (str_join '' '' stable_text_parts)
                       else []))))"
| "extract_transcription _ = Inl AttributeError"

text \<open>
  The extraction rule as the specification words it, on the texts of the lines:
  keep the non-empty texts, join them with a single space, collapse every run of
  two or more spaces into one, and trim.
\<close>

fun collapse_space_runs :: "string \<Rightarrow> string" where
  "collapse_space_runs (a # b # r) =
     (if a = CHR '' '' \<and> b = CHR '' '' then collapse_space_runs (b # r)
      else a # collapse_space_runs (b # r))"
| "collapse_space_runs r = r"

definition spec_stable_text :: "string list \<Rightarrow> string" where
  "spec_stable_text texts =
     strip (collapse_space_runs (str_join '' '' (filter (\<lambda>t. t \<noteq> []) texts)))"

text \<open>
  The text field of a line: its \<open>text\<close> member when that is a string, else empty.
  A line is well formed when it is an object whose \<open>text\<close> member is a string, or is
  absent or false (null, zero, empty).
\<close>

fun line_text :: "json \<Rightarrow> string" where
  "line_text (JObj line) = (case dict_get line ''text'' JNull of JStr s \<Rightarrow> s | _ \<Rightarrow> [])"
| "line_text _ = []"

fun is_text_line :: "json \<Rightarrow> bool" where
  "is_text_line (JObj line) =
     (case dict_get line ''text'' JNull of JStr s \<Rightarrow> True | v \<Rightarrow> \<not> truthy v)"
| "is_text_line _ = False"

subsection \<open>\_handle\_message and listen\_for\_messages\<close>

text \<open>
  The socket is the frames written to it so far and the outcomes of the next
  attempts to send (\<open>False\<close>: the send raises; none left: the send succeeds).
\<close>

type_synonym byte = "8 word"

record socket =
  frames :: "byte list list"
  outcomes :: "bool list"

datatype logged_error =
  JsonDecodeError | ErrorListening | FailedToSendAudio | FailedToSendStop

text \<open>
  \<open>transcription_callback\<close> is whether the callback is set; the application sets it to
  the \<open>insert_text\<close> of its TextInserter, whose state the handlers take and return.
  \<open>errors_logged\<close> are the calls of \<^verbatim>\<open>logger.error\<close>.
\<close>

record WebSocketClient =
  websocket :: "socket option"
  is_connected :: bool
  transcription_callback :: bool
  errors_logged :: "logged_error list"

fun handle_message :: "json \<Rightarrow> WebSocketClient \<Rightarrow> TextInserter \<Rightarrow> error + TextInserter" where
  "handle_message (JObj data) c ti =
     (let message_type = dict_get data ''type'' (JStr [])
      in if message_type = JStr ''ready_to_stop''
         then (if transcription_callback c
               then (case extract_transcription (JObj data) of
                       Inl e \<Rightarrow> Inl e
                     | Inr final_text \<Rightarrow>
                         if strip final_text \<noteq> []
                         then Inr (end_typing_session (insert_text final_text ti))
                         else Inr ti)
               else Inr ti)
         else (if transcription_callback c
               then (case extract_transcription (JObj data) of
                       Inl e \<Rightarrow> Inl e
                     | Inr transcription \<Rightarrow>
                         if strip transcription \<noteq> []
                         then Inr (insert_text transcription ti)
                         else Inr ti)
               else Inr ti))"
| "handle_message _ c ti = Inl AttributeError"

text \<open>
  What the loop \<^verbatim>\<open>async for message in self.websocket\<close> meets: a message that
  \<^verbatim>\<open>json.loads\<close> rejects with JSONDecodeError, a message it decodes, or any other
  exception raised while receiving. The end of the list is the peer closing the socket.
\<close>

datatype inbound = Undecodable | Decoded json | ReceiveFailure

fun listen_loop ::
  "inbound list \<Rightarrow> WebSocketClient \<Rightarrow> TextInserter \<Rightarrow> WebSocketClient \<times> TextInserter" where
  "listen_loop [] c ti = (c, ti)"
| "listen_loop (Undecodable # messages) c ti =
     (c\<lparr>errors_logged := errors_logged c @ [JsonDecodeError]\<rparr>, ti)"
| "listen_loop (ReceiveFailure # messages) c ti =
     (c\<lparr>errors_logged := errors_logged c @ [ErrorListening], is_connected := False\<rparr>, ti)"
| "listen_loop (Decoded data # messages) c ti =
     (case handle_message data c ti of
        Inl e \<Rightarrow>
          (c\<lparr>errors_logged := errors_logged c @ [ErrorListening], is_connected := False\<rparr>, ti)
      | Inr ti' \<Rightarrow> listen_loop messages c ti')"

definition listen_for_messages ::
  "inbound list \<Rightarrow> WebSocketClient \<Rightarrow> TextInserter \<Rightarrow> WebSocketClient \<times> TextInserter" where
  "listen_for_messages messages c ti =
     (if websocket c = None then (c, ti) else listen_loop messages c ti)"

text \<open>Handling decoded messages one after the other, stopping at the first exception.\<close>

fun handle_all :: "json list \<Rightarrow> WebSocketClient \<Rightarrow> TextInserter \<Rightarrow> error + TextInserter" where
  "handle_all [] c ti = Inr ti"
| "handle_all (data # rest) c ti =
     (case handle_message data c ti of Inl e \<Rightarrow> Inl e | Inr ti' \<Rightarrow> handle_all rest c ti')"

subsection \<open>send\_audio and send\_stop\_signal\<close>

text \<open>
  \<^verbatim>\<open>await self.websocket.send(data)\<close>: the next outcome decides whether the frame is
  written or the send raises.
\<close>

fun ws_send :: "byte list \<Rightarrow> socket \<Rightarrow> bool \<times> socket" where
  "ws_send data s =
     (case outcomes s of
        [] \<Rightarrow> (True, s\<lparr>frames := frames s @ [data]\<rparr>)
      | ok # later \<Rightarrow>
          if ok then (True, s\<lparr>frames := frames s @ [data], outcomes := later\<rparr>)
          else (False, s\<lparr>outcomes := later\<rparr>))"

text \<open>
  The result of a call is the exception it raises, if any, and the client after the
  call.
\<close>

fun send_audio :: "byte list \<Rightarrow> WebSocketClient \<Rightarrow> error option \<times> WebSocketClient" where
  "send_audio audio_data c =
     (case websocket c of
        None \<Rightarrow> (None, c)
      | Some s \<Rightarrow>
          if is_connected c
          then (case ws_send audio_data s of
                  (True, s') \<Rightarrow> (None, c\<lparr>websocket := Some s'\<rparr>)
                | (False, s') \<Rightarrow>
                    (Some SendFailure,
                     c\<lparr>websocket := Some s',
                       errors_logged := errors_logged c @ [FailedToSendAudio],
                       is_connected := False\<rparr>))
          else (None, c))"

fun send_stop_signal :: "WebSocketClient \<Rightarrow> WebSocketClient" where
  "send_stop_signal c =
     (case websocket c of
        None \<Rightarrow> c
      | Some s \<Rightarrow>
          if is_connected c
          then (case ws_send [] s of
                  (True, s') \<Rightarrow> c\<lparr>websocket := Some s'\<rparr>
                | (False, s') \<Rightarrow>
                    c\<lparr>websocket := Some s',
                      errors_logged := errors_logged c @ [FailedToSendStop]\<rparr>)
          else c)"

subsection \<open>create\_wav\_header\<close>

text \<open>
  \<^verbatim>\<open>n.to_bytes(length, 'little')\<close>: OverflowError for a negative number and for one
  that does not fit in \<open>length\<close> bytes.
\<close>

fun le_bytes :: "int \<Rightarrow> nat \<Rightarrow> byte list" where
  "le_bytes n 0 = []"
| "le_bytes n (Suc k) = word_of_int (n mod 256) # le_bytes (n div 256) k"

definition to_bytes :: "int \<Rightarrow> nat \<Rightarrow> error + byte list" where
  "to_bytes n len =
     (if n < 0 then Inl OverflowError
      else if 256 ^ len \<le> n then Inl OverflowError
      else Inr (le_bytes n len))"

text \<open>A bytes literal such as \<^verbatim>\<open>b'RIFF'\<close>.\<close>

definition bytes_literal :: "string \<Rightarrow> byte list" where
  "bytes_literal s = map of_char s"

text \<open>
  \<^verbatim>\<open>output.write(x)\<close> on the buffer built so far, where computing \<open>x\<close> may raise.
\<close>

fun output_write :: "error + byte list \<Rightarrow> error + byte list \<Rightarrow> error + byte list" where
  "output_write (Inl e) x = Inl e"
| "output_write (Inr buf) (Inl e) = Inl e"
| "output_write (Inr buf) (Inr x) = Inr (buf @ x)"

definition create_wav_header :: "int \<Rightarrow> int \<Rightarrow> int \<Rightarrow> error + byte list" where
  "create_wav_header sample_rate channels sample_width =
     (let byte_rate = sample_rate * channels * sample_width;
          block_align = channels * sample_width
      in foldl output_write (Inr [])
           [Inr (bytes_literal ''RIFF''),
            to_bytes 0xFFFFFFFF 4,
            Inr (bytes_literal ''WAVE''),
            Inr (bytes_literal ''fmt ''),
            to_bytes 16 4,
            to_bytes 1 2,
            to_bytes channels 2,
            to_bytes sample_rate 4,
            to_bytes byte_rate 4,
            to_bytes block_align 2,
            to_bytes (sample_width * 8) 2,
            Inr (bytes_literal ''data''),
            to_bytes 0xFFFFFFFF 4])"



section \<open>speech\_recognition\_app.py: SpeechRecognitionApp\<close>

subsection \<open>\_stream\_audio\<close>

text \<open>
  The local variables of \<^verbatim>\<open>_stream_audio\<close> and the client it sends through.
  \<open>send_calls\<close> is not a variable of the source: it records, in order, each call of
  \<open>send_audio\<close> the function makes, with the call site that made it (the header, or a
  PCM payload) and the bytes passed.
\<close>

datatype frame_kind = StreamHeader | PcmPayload

record StreamState =
  accumulated_audio :: "byte list"
  last_send_time :: real
  wav_header_sent :: bool
  client :: WebSocketClient
  send_calls :: "(frame_kind \<times> byte list) list"

definition send_from :: "frame_kind \<Rightarrow> byte list \<Rightarrow> StreamState \<Rightarrow> error option \<times> StreamState" where
  "send_from site data st =
     (case send_audio data (client st) of
        (e, c') \<Rightarrow> (e, st\<lparr>client := c', send_calls := send_calls st @ [(site, data)]\<rparr>))"

text \<open>The block under \<^verbatim>\<open>if not wav_header_sent\<close>.\<close>

definition send_wav_header :: "int \<Rightarrow> int \<Rightarrow> int \<Rightarrow> StreamState \<Rightarrow> error option \<times> StreamState" where
  "send_wav_header rate channels sample_width st =
     (if \<not> wav_header_sent st
      then (case create_wav_header rate channels sample_width of
              Inl e \<Rightarrow> (Some e, st)
            | Inr wav_header \<Rightarrow>
                (case send_from StreamHeader wav_header st of
                   (Some e, st') \<Rightarrow> (Some e, st')
                 | (None, st') \<Rightarrow> (None, st'\<lparr>wav_header_sent := True\<rparr>)))
      else (None, st))"

text \<open>
  The loop \<^verbatim>\<open>while self.is_recording\<close>. Each element of the list is one iteration
  entered with \<open>is_recording\<close> true: what \<open>get_audio_chunk\<close> returned (\<open>None\<close> when the
  queue is empty) and what \<^verbatim>\<open>time.time()\<close> read, in seconds. The list ends when
  \<open>is_recording\<close> is found false. An exception raised by a send ends the function.
\<close>

fun stream_loop ::
  "int \<Rightarrow> int \<Rightarrow> int \<Rightarrow> (byte list option \<times> real) list \<Rightarrow> StreamState
     \<Rightarrow> error option \<times> StreamState" where
  "stream_loop rate channels sample_width [] st = (None, st)"
| "stream_loop rate channels sample_width ((audio_data, current_time) # iterations) st =
     (if audio_data \<noteq> None \<and> audio_data \<noteq> Some []
      then (let st1 = st\<lparr>accumulated_audio := accumulated_audio st @ the audio_data\<rparr>
            in if current_time - last_send_time st1 \<ge> 1
               then (if accumulated_audio st1 \<noteq> []
                     then (case send_wav_header rate channels sample_width st1 of
                             (Some e, st2) \<Rightarrow> (Some e, st2)
                           | (None, st2) \<Rightarrow>
                               (case send_from PcmPayload (accumulated_audio st2) st2 of
                                  (Some e, st3) \<Rightarrow> (Some e, st3)
                                | (None, st3) \<Rightarrow>
                                    stream_loop rate channels sample_width iterations
                                      (st3\<lparr>accumulated_audio := [],
                                           last_send_time := current_time\<rparr>)))
                     else stream_loop rate channels sample_width iterations st1)
               else stream_loop rate channels sample_width iterations st1)
      else stream_loop rate channels sample_width iterations st)"

definition stream_audio ::
  "int \<Rightarrow> int \<Rightarrow> int \<Rightarrow> real \<Rightarrow> (byte list option \<times> real) list \<Rightarrow> WebSocketClient
     \<Rightarrow> error option \<times> StreamState" where
  "stream_audio rate channels sample_width start_time iterations c =
     (case stream_loop rate channels sample_width iterations
             \<lparr>accumulated_audio = [], last_send_time = start_time, wav_header_sent = False,
              client = c, send_calls = []\<rparr> of
        (Some e, st) \<Rightarrow> (Some e, st)
      | (None, st) \<Rightarrow>
          if accumulated_audio st \<noteq> []
          then send_from PcmPayload (accumulated_audio st) st
          else (None, st))"

text \<open>A list of calls that starts with the header \<open>h\<close> and has only PCM payloads after it.\<close>

fun header_then_pcm :: "byte list \<Rightarrow> (frame_kind \<times> byte list) list \<Rightarrow> bool" where
  "header_then_pcm h [] = False"
| "header_then_pcm h (x # xs) = (x = (StreamHeader, h) \<and> list_all (\<lambda>y. fst y = PcmPayload) xs)"

text \<open>
  The calls start with the header that \<open>create_wav_header\<close> returns for the given
  parameters; and the invariant of the loop: no call before the header is sent, the
  header first once it is.
\<close>

definition header_first :: "int \<Rightarrow> int \<Rightarrow> int \<Rightarrow> (frame_kind \<times> byte list) list \<Rightarrow> bool" where
  "header_first rate channels sample_width calls =
     (case create_wav_header rate channels sample_width of
        Inl e \<Rightarrow> False
      | Inr h \<Rightarrow> header_then_pcm h calls)"

definition loop_invariant :: "int \<Rightarrow> int \<Rightarrow> int \<Rightarrow> StreamState \<Rightarrow> bool" where
  "loop_invariant rate channels sample_width st =
     (if wav_header_sent st then header_first rate channels sample_width (send_calls st)
      else send_calls st = [])"

text \<open>
  The frames written to the client's socket, a client that \<open>send_audio\<close> does not send
  through, and the relation between the socket and the calls: the frames written since
  the socket held \<open>w0\<close> are the payloads of the first \<open>k\<close> calls, and if some call wrote
  nothing the client no longer sends.
\<close>

definition wire :: "WebSocketClient \<Rightarrow> byte list list" where
  "wire c = (case websocket c of None \<Rightarrow> [] | Some s \<Rightarrow> frames s)"

definition not_sending :: "WebSocketClient \<Rightarrow> bool" where
  "not_sending c = (websocket c = None \<or> \<not> is_connected c)"

definition written_prefix :: "byte list list \<Rightarrow> StreamState \<Rightarrow> bool" where
  "written_prefix w0 st =
     (\<exists>k \<le> length (send_calls st).
        wire (client st) = w0 @ map snd (take k (send_calls st)) \<and>
        (k < length (send_calls st) \<longrightarrow> not_sending (client st)))"

text \<open>
  The calls of \<open>send_audio\<close> made from inside the loop of a session, that is before the
  flush that follows the loop.
\<close>

definition loop_send_calls ::
  "int \<Rightarrow> int \<Rightarrow> int \<Rightarrow> real \<Rightarrow> (byte list option \<times> real) list \<Rightarrow> WebSocketClient
     \<Rightarrow> (frame_kind \<times> byte list) list" where
  "loop_send_calls rate channels sample_width start_time iterations c =
     send_calls (snd (stream_loop rate channels sample_width iterations
       \<lparr>accumulated_audio = [], last_send_time = start_time, wav_header_sent = False,
        client = c, send_calls = []\<rparr>))"

subsection \<open>The drain loop of \_stop\_recording\<close>

text \<open>
  The loop \<^verbatim>\<open>while time.time() - wait_start_time < self.config.max_wait_time\<close>.
  \<open>elapsed\<close> is \<^verbatim>\<open>time.time() - wait_start_time\<close> at the loop test, in seconds. Each
  element of the list is one iteration: the time that passes until the next loop test
  (the \<^verbatim>\<open>asyncio.sleep(0.1)\<close> and whatever else runs meanwhile) and
  \<open>is_typing_session_active\<close> as read after the sleep. The result is the elapsed time at
  which the loop is left and whether it was left by \<^verbatim>\<open>break\<close>; it is \<open>None\<close> when the
  list ends while the loop would go on.
\<close>

fun drain_wait :: "real \<Rightarrow> real \<Rightarrow> (real \<times> bool) list \<Rightarrow> (real \<times> bool) option" where
  "drain_wait max_wait_time elapsed [] =
     (if elapsed < max_wait_time then None else Some (elapsed, False))"
| "drain_wait max_wait_time elapsed ((slept, active) # polls) =
     (if elapsed < max_wait_time
      then (if \<not> active then Some (elapsed + slept, True)
            else drain_wait max_wait_time (elapsed + slept) polls)
      else Some (elapsed, False))"

section \<open>Facts about the string primitives\<close>

lemma str_split_Nil: "dropWhile py_isspace s = [] \<Longrightarrow> str_split s = []"
  by (subst str_split.simps) simp

lemma str_split_Cons:
  "dropWhile py_isspace s \<noteq> [] \<Longrightarrow>
     str_split s = takeWhile (\<lambda>c. \<not> py_isspace c) (dropWhile py_isspace s)
                   # str_split (dropWhile (\<lambda>c. \<not> py_isspace c) (dropWhile py_isspace s))"
  by (subst str_split.simps) (simp add: Let_def)

lemma takeWhile_word:
  assumes "xs \<noteq> []" "\<not> P (hd xs)"
  shows "takeWhile (\<lambda>c. \<not> P c) xs \<noteq> []"
  using assms by (cases xs) simp_all

lemma str_split_words:
  "w \<in> set (str_split s) \<Longrightarrow> w \<noteq> [] \<and> (\<forall>c \<in> set w. \<not> py_isspace c)"
proof (induction s rule: str_split.induct)
  case (1 s)
  let ?s' = "dropWhile py_isspace s"
  let ?w = "takeWhile (\<lambda>c. \<not> py_isspace c) ?s'"
  let ?r = "dropWhile (\<lambda>c. \<not> py_isspace c) ?s'"
  show ?case
  proof (cases "?s' = []")
    case True
    then have "str_split s = []" by (rule str_split_Nil)
    with "1.prems" show ?thesis by simp
  next
    case False
    then have hd: "\<not> py_isspace (hd ?s')"
      by (rule hd_dropWhile)
    have "str_split s = ?w # str_split ?r"
      using False by (rule str_split_Cons)
    with "1.prems" have "w = ?w \<or> w \<in> set (str_split ?r)"
      by simp
    then show ?thesis
    proof
      assume w: "w = ?w"
      have "?w \<noteq> []"
        using False hd by (rule takeWhile_word)
      moreover have "\<forall>c \<in> set ?w. \<not> py_isspace c"
        by (blast dest: set_takeWhileD)
      ultimately show ?thesis unfolding w by blast
    next
      assume "w \<in> set (str_split ?r)"
      then show ?thesis by (rule "1.IH" [OF refl False])
    qed
  qed
qed

lemma str_join_last:
  "ws \<noteq> [] \<Longrightarrow> \<forall>w \<in> set ws. w \<noteq> [] \<Longrightarrow>
     str_join sep ws \<noteq> [] \<and> last (str_join sep ws) = last (last ws)"
  by (induction sep ws rule: str_join.induct) simp_all

lemma endswith_last:
  "endswith s [c] \<longleftrightarrow> s \<noteq> [] \<and> last s = c"
proof (cases s rule: rev_cases)
  case Nil
  then show ?thesis by (simp add: endswith_def)
next
  case (snoc xs x)
  then show ?thesis by (simp add: endswith_def)
qed

lemma endswith_snoc2: "endswith s (p @ [c]) \<Longrightarrow> endswith s [c]"
proof (cases s rule: rev_cases)
  case Nil
  assume "endswith s (p @ [c])"
  with Nil show ?thesis by (simp add: endswith_def)
next
  case (snoc xs x)
  assume "endswith s (p @ [c])"
  with snoc have "drop (length xs - length p) xs @ [x] = p @ [c]"
    by (simp add: endswith_def)
  then have "x = c" by simp
  with snoc show ?thesis by (simp add: endswith_def)
qed

lemma join_split_last_nonspace:
  assumes "str_split s \<noteq> []"
  shows "str_join sep (str_split s) \<noteq> []"
    and "\<not> py_isspace (last (str_join sep (str_split s)))"
proof -
  have ne: "\<forall>w \<in> set (str_split s). w \<noteq> []"
    using str_split_words by blast
  from str_join_last [OF assms ne]
  show "str_join sep (str_split s) \<noteq> []" by simp
  have lw: "last (str_split s) \<in> set (str_split s)"
    using assms by simp
  then have "last (last (str_split s)) \<in> set (last (str_split s))"
    using ne by simp
  then have "\<not> py_isspace (last (last (str_split s)))"
    using str_split_words [OF lw] by blast
  then show "\<not> py_isspace (last (str_join sep (str_split s)))"
    using str_join_last [OF assms ne] by simp
qed

lemma space_isspace: "py_isspace CHR '' ''"
  by (simp add: py_isspace_def)

lemma rstrip_id: "s \<noteq> [] \<Longrightarrow> \<not> py_isspace (last s) \<Longrightarrow> rstrip s = s"
  by (cases s rule: rev_cases) (simp_all add: rstrip_def)

lemma rstrip_Nil: "rstrip [] = []"
  by (simp add: rstrip_def)

lemma strip_nonempty: "s \<noteq> [] \<Longrightarrow> \<not> py_isspace (last s) \<Longrightarrow> strip s \<noteq> []"
  by (cases s rule: rev_cases) (simp_all add: strip_def rstrip_def lstrip_def dropWhile_append)

lemma last_dropWhile: "dropWhile P xs \<noteq> [] \<Longrightarrow> last (dropWhile P xs) = last xs"
  by (metis last_appendR takeWhile_dropWhile_id)

lemma rstrip_last: "rstrip s \<noteq> [] \<Longrightarrow> \<not> py_isspace (last (rstrip s))"
  unfolding rstrip_def by (metis hd_dropWhile last_rev rev_is_Nil_conv)

lemma strip_last: "strip s \<noteq> [] \<Longrightarrow> \<not> py_isspace (last (strip s))"
  unfolding strip_def lstrip_def
  by (metis last_dropWhile rstrip_last dropWhile.simps(1))

lemma in_dropWhile: "c \<in> set xs \<Longrightarrow> \<not> P c \<Longrightarrow> c \<in> set (dropWhile P xs)"
  by (induction xs) auto

lemma strip_nonempty_ex:
  assumes "c \<in> set s" "\<not> py_isspace c"
  shows "strip s \<noteq> []"
proof -
  have "c \<in> set (rev s)" using assms(1) by simp
  then have "c \<in> set (dropWhile py_isspace (rev s))"
    using assms(2) by (rule in_dropWhile)
  then have "c \<in> set (rstrip s)" by (simp add: rstrip_def)
  then have "c \<in> set (lstrip (rstrip s))"
    unfolding lstrip_def using assms(2) by (rule in_dropWhile)
  then show ?thesis unfolding strip_def by auto
qed

lemma type_text_slowly_eq:
  "type_text_slowly text ti = ti\<lparr>controller := controller ti @ text\<rparr>"
  unfolding type_text_slowly_def
  by (induction "text" arbitrary: ti) simp_all

lemma clean_text_Nil: "str_split text = [] \<Longrightarrow> clean_text text = []"
  by (simp add: clean_text_def)

lemma not_endswith_space:
  "s \<noteq> [] \<Longrightarrow> \<not> py_isspace (last s) \<Longrightarrow> \<not> endswith s '' ''"
  using space_isspace by (auto simp: endswith_last)

lemma punct_endswith:
  "endswith s (p # '' '') \<Longrightarrow> endswith s '' ''"
  using endswith_snoc2 [of s "[p]" "CHR '' ''"] by simp

lemma clean_text_closed:
  assumes "str_split text \<noteq> []"
  shows "clean_text text =
           str_join '' '' (str_split text) @ (if endswith text '' '' then '' '' else [])"
proof -
  let ?j = "str_join '' '' (str_split text)"
  have j: "\<not> endswith ?j '' ''"
    using join_split_last_nonspace [OF assms] by (rule not_endswith_space)
  show ?thesis
  proof (cases "endswith text '' ''")
    case True
    with j assms show ?thesis
      by (simp add: clean_text_def Let_def)
  next
    case False
    then have "\<not> endswith text (p # '' '')" for p
      using punct_endswith by blast
    with False assms show ?thesis
      by (simp add: clean_text_def Let_def)
  qed
qed

lemma clean_text_nonblank:
  assumes "clean_text text \<noteq> []"
  shows "strip (clean_text text) \<noteq> []"
proof -
  have ne: "str_split text \<noteq> []"
    using assms clean_text_Nil by blast
  let ?j = "str_join '' '' (str_split text)"
  have "?j \<noteq> []" "\<not> py_isspace (last ?j)"
    using join_split_last_nonspace [OF ne] by blast+
  then have "last ?j \<in> set (clean_text text)" "\<not> py_isspace (last ?j)"
    by (simp_all add: clean_text_closed [OF ne])
  then show ?thesis by (rule strip_nonempty_ex)
qed

lemma startswith_Nil: "startswith s []"
  by (simp add: startswith_def)

lemma insert_text_rules:
  "insert_text text ti = apply_rules (clean_text text) ti"
proof (cases "clean_text text = []")
  case True
  then show ?thesis by (simp add: insert_text_def apply_rules_def)
next
  case False
  then have "str_split text \<noteq> []" using clean_text_Nil by blast
  then have t: "text \<noteq> []" by (auto simp: str_split_Nil)
  show ?thesis
  proof (cases "last_typed_text ti = []")
    case True
    with False t clean_text_nonblank [OF False] show ?thesis
      by (simp add: insert_text_def apply_rules_def Let_def type_text_slowly_eq
          rstrip_Nil startswith_Nil)
  next
    case False
    with t show ?thesis
      by (simp add: insert_text_def apply_rules_def Let_def type_text_slowly_eq)
  qed
qed

section \<open>TextInserter.insert\_text: the three rules\<close>

text \<open>
  C2 (as amended). Every call of \<open>insert_text\<close> applies the three rules of \<open>apply\<close> to
  the text normalised by \<open>clean_text\<close>, not to the text it is given: it is a no-op when
  the normalised text is empty or equals \<open>last_typed_text\<close>; when the normalised text
  begins with the right-trimmed \<open>last_typed_text\<close>, the suffix beyond that prefix is
  typed and \<open>last_typed_text\<close> becomes the normalised text if the suffix is not blank, and
  nothing changes if it is blank; otherwise the whole normalised text is typed and
  \<open>last_typed_text\<close> becomes the normalised text.
\<close>

theorem insert_text_three_rules:
  "(clean_text text = [] \<or> clean_text text = last_typed_text ti \<longrightarrow>
      insert_text text ti = ti) \<and>
   (clean_text text \<noteq> [] \<and> clean_text text \<noteq> last_typed_text ti \<and>
    startswith (clean_text text) (rstrip (last_typed_text ti)) \<longrightarrow>
      insert_text text ti =
        (if strip (drop (length (rstrip (last_typed_text ti))) (clean_text text)) \<noteq> []
         then ti\<lparr>controller := controller ti @
                      drop (length (rstrip (last_typed_text ti))) (clean_text text),
                 last_typed_text := clean_text text\<rparr>
         else ti)) \<and>
   (clean_text text \<noteq> [] \<and> clean_text text \<noteq> last_typed_text ti \<and>
    \<not> startswith (clean_text text) (rstrip (last_typed_text ti)) \<longrightarrow>
      insert_text text ti =
        ti\<lparr>controller := controller ti @ clean_text text,
           last_typed_text := clean_text text\<rparr>) \<and>
   insert_text text ti = apply_rules (clean_text text) ti"
proof (intro conjI impI)
  show r: "insert_text text ti = apply_rules (clean_text text) ti"
    by (rule insert_text_rules)
  assume "clean_text text = [] \<or> clean_text text = last_typed_text ti"
  then show "insert_text text ti = ti"
    unfolding r by (auto simp: apply_rules_def)
next
  assume "clean_text text \<noteq> [] \<and> clean_text text \<noteq> last_typed_text ti \<and>
    startswith (clean_text text) (rstrip (last_typed_text ti))"
  then show "insert_text text ti =
        (if strip (drop (length (rstrip (last_typed_text ti))) (clean_text text)) \<noteq> []
         then ti\<lparr>controller := controller ti @
                      drop (length (rstrip (last_typed_text ti))) (clean_text text),
                 last_typed_text := clean_text text\<rparr>
         else ti)"
    by (simp add: insert_text_rules apply_rules_def Let_def)
next
  assume "clean_text text \<noteq> [] \<and> clean_text text \<noteq> last_typed_text ti \<and>
    \<not> startswith (clean_text text) (rstrip (last_typed_text ti))"
  then show "insert_text text ti =
        ti\<lparr>controller := controller ti @ clean_text text,
           last_typed_text := clean_text text\<rparr>"
    by (simp add: insert_text_rules apply_rules_def Let_def)
qed

text \<open>
  The specification's examples: with \<open>hello wor\<close> typed, the text \<open>hello world\<close> types
  \<open>ld\<close> only; then \<open>hi there\<close>, which does not begin with it, is typed in full.
\<close>

theorem insert_text_three_rules_witness:
  "insert_text ''hello world''
     \<lparr>controller = ''hello wor'', last_typed_text = ''hello wor'',
      is_typing_session_active = True\<rparr>
   = \<lparr>controller = ''hello world'', last_typed_text = ''hello world'',
      is_typing_session_active = True\<rparr>
   \<and> insert_text ''hi there''
     \<lparr>controller = ''hello world'', last_typed_text = ''hello world'',
      is_typing_session_active = True\<rparr>
   = \<lparr>controller = ''hello worldhi there'', last_typed_text = ''hi there'',
      is_typing_session_active = True\<rparr>"
proof -
  let ?t1 = "\<lparr>controller = ''hello wor'', last_typed_text = ''hello wor'',
      is_typing_session_active = True\<rparr>"
  let ?t2 = "\<lparr>controller = ''hello world'', last_typed_text = ''hello world'',
      is_typing_session_active = True\<rparr>"
  have c: "clean_text ''hello world'' = ''hello world''" "clean_text ''hi there'' = ''hi there''"
    by code_simp+
  have s: "rstrip ''hello wor'' = ''hello wor''" "rstrip ''hello world'' = ''hello world''"
    "strip ''ld'' = ''ld''"
    by code_simp+
  have 1: "insert_text ''hello world'' ?t1 = ?t2"
    using insert_text_three_rules [of "''hello world''" ?t1]
    by (simp add: c s startswith_def)
  have 2: "insert_text ''hi there'' ?t2
      = \<lparr>controller = ''hello worldhi there'', last_typed_text = ''hi there'',
      is_typing_session_active = True\<rparr>"
    using insert_text_three_rules [of "''hi there''" ?t2]
    by (simp add: c s startswith_def)
  from 1 2 show ?thesis by (rule conjI)
qed

text \<open>
  The rules do not hold of the text as given: a text with a tab between two words is
  typed with a space there, and \<open>last_typed_text\<close> holds the normalised text.
\<close>

theorem insert_text_raw_text_counterexample:
  "insert_text [CHR ''a'', CHR 0x09, CHR ''b'']
     \<lparr>controller = [], last_typed_text = [], is_typing_session_active = True\<rparr>
   \<noteq> apply_rules [CHR ''a'', CHR 0x09, CHR ''b'']
     \<lparr>controller = [], last_typed_text = [], is_typing_session_active = True\<rparr>"
proof -
  have "controller (insert_text [CHR ''a'', CHR 0x09, CHR ''b'']
     \<lparr>controller = [], last_typed_text = [], is_typing_session_active = True\<rparr>) = ''a b''"
    by code_simp
  moreover have "controller (apply_rules [CHR ''a'', CHR 0x09, CHR ''b'']
     \<lparr>controller = [], last_typed_text = [], is_typing_session_active = True\<rparr>)
     = [CHR ''a'', CHR 0x09, CHR ''b'']"
    by code_simp
  ultimately show ?thesis by auto
qed

section \<open>TextInserter.\_clean\_text: normalisation before the diff\<close>



section \<open>Prefix-extending sequences of updates\<close>

lemma startswith_length:
  assumes "startswith s p"
  shows "length p \<le> length s"
proof -
  have "length (take (length p) s) = length p"
    using assms by (simp add: startswith_def)
  then show ?thesis by simp
qed

lemma startswith_decomp: "startswith s p \<Longrightarrow> s = p @ drop (length p) s"
  unfolding startswith_def by (metis append_take_drop_id)

lemma startswith_trans: "startswith b a \<Longrightarrow> startswith c b \<Longrightarrow> startswith c a"
proof -
  assume ab: "startswith b a" and bc: "startswith c b"
  obtain x where b: "b = a @ x" using startswith_decomp [OF ab] by blast
  obtain y where c: "c = b @ y" using startswith_decomp [OF bc] by blast
  show ?thesis by (simp add: startswith_def b c)
qed

lemma prefix_chain_last: "prefix_chain p cs \<Longrightarrow> startswith (last (p # cs)) p"
proof (induction cs arbitrary: p)
  case Nil
  then show ?case by (simp add: startswith_def)
next
  case (Cons c cs)
  then have "startswith c p" "startswith (last (c # cs)) c" by simp_all
  then have "startswith (last (c # cs)) p" by (rule startswith_trans)
  then show ?case by simp
qed

lemma concat_successive_suffixes:
  "prefix_chain p cs \<Longrightarrow> concat (successive_suffixes p cs) = drop (length p) (last (p # cs))"
proof (induction cs arbitrary: p)
  case Nil
  then show ?case by simp
next
  case (Cons c cs)
  then have pc: "startswith c p" and ch: "prefix_chain c cs" by simp_all
  obtain r where r: "last (c # cs) = c @ r"
    using startswith_decomp [OF prefix_chain_last [OF ch]] by blast
  have "concat (successive_suffixes p (c # cs)) = drop (length p) c @ drop (length c) (last (c # cs))"
    using Cons.IH [OF ch] by simp
  also have "\<dots> = drop (length p) c @ r" by (subst r) simp
  also have "\<dots> = drop (length p) (c @ r)"
    using startswith_length [OF pc] by simp
  also have "\<dots> = drop (length p) (last (c # cs))"
    by (subst r) simp
  also have "\<dots> = drop (length p) (last (p # c # cs))"
    by simp
  finally show ?case .
qed

lemma clean_text_no_trailing_space:
  assumes "str_split t \<noteq> []" "\<not> endswith t '' ''"
  shows "clean_text t \<noteq> []" "\<not> py_isspace (last (clean_text t))"
  using join_split_last_nonspace [OF assms(1), of "'' ''"] assms(2)
  by (simp_all add: clean_text_closed [OF assms(1)])

lemma startswith_proper:
  assumes "startswith c p" "c \<noteq> p"
  shows "drop (length p) c \<noteq> []"
proof
  assume "drop (length p) c = []"
  with startswith_decomp [OF assms(1)] have "c = p" by simp
  with assms(2) show False by simp
qed

lemma insert_text_extension:
  assumes lt: "last_typed_text ti = p"
    and pns: "p \<noteq> [] \<longrightarrow> \<not> py_isspace (last p)"
    and cne: "clean_text t \<noteq> []"
    and cns: "\<not> py_isspace (last (clean_text t))"
    and pre: "startswith (clean_text t) p"
  shows "insert_text t ti =
           ti\<lparr>controller := controller ti @ drop (length p) (clean_text t),
              last_typed_text := clean_text t\<rparr>"
proof (cases "clean_text t = p")
  case True
  with lt cne show ?thesis
    by (simp add: insert_text_rules apply_rules_def)
next
  case False
  have rs: "rstrip p = p"
    using pns by (cases "p = []") (simp_all add: rstrip_Nil rstrip_id)
  let ?n = "drop (length p) (clean_text t)"
  have n: "?n \<noteq> []" using pre False by (rule startswith_proper)
  then have "last ?n = last (clean_text t)" by simp
  with cns n have "strip ?n \<noteq> []" by (simp add: strip_nonempty)
  with False cne lt rs pre show ?thesis
    by (simp add: insert_text_rules apply_rules_def Let_def)
qed

lemma insert_all_extensions:
  assumes "last_typed_text ti = p" "p \<noteq> [] \<longrightarrow> \<not> py_isspace (last p)"
    and "\<forall>t \<in> set ts. str_split t \<noteq> [] \<and> \<not> endswith t '' ''"
    and "prefix_chain p (map clean_text ts)"
  shows "emitted_keystrokes ts ti = successive_suffixes p (map clean_text ts) \<and>
         controller (insert_all ts ti) = controller ti @ concat (emitted_keystrokes ts ti) \<and>
         last_typed_text (insert_all ts ti) = last (p # map clean_text ts)"
  using assms
proof (induction ts arbitrary: ti p)
  case Nil
  then show ?case by simp
next
  case (Cons t ts)
  let ?c = "clean_text t"
  let ?ti = "ti\<lparr>controller := controller ti @ drop (length p) ?c, last_typed_text := ?c\<rparr>"
  from Cons.prems(3) have sp: "str_split t \<noteq> []" and ne: "\<not> endswith t '' ''"
    by simp_all
  note c = clean_text_no_trailing_space [OF sp ne]
  from Cons.prems(4) have pre: "startswith ?c p" and ch: "prefix_chain ?c (map clean_text ts)"
    by simp_all
  have step: "insert_text t ti = ?ti"
    using Cons.prems(1,2) c pre by (rule insert_text_extension)
  have rest: "\<forall>t \<in> set ts. str_split t \<noteq> [] \<and> \<not> endswith t '' ''"
    using Cons.prems(3) by simp
  have "last_typed_text ?ti = ?c" by simp
  moreover have "?c \<noteq> [] \<longrightarrow> \<not> py_isspace (last ?c)" using c by simp
  ultimately have IH:
    "emitted_keystrokes ts ?ti = successive_suffixes ?c (map clean_text ts) \<and>
     controller (insert_all ts ?ti) = controller ?ti @ concat (emitted_keystrokes ts ?ti) \<and>
     last_typed_text (insert_all ts ?ti) = last (?c # map clean_text ts)"
    using rest ch by (rule Cons.IH)
  then show ?case by (simp add: step)
qed

text \<open>
  C3 (as amended). After \<open>start_typing_session\<close>, for any sequence of updates each of
  which has at least one word and does not end with a space, and whose normalised
  forms (\<open>clean_text\<close>) each begin with the normalised form before: the keystrokes
  emitted by the successive calls are exactly the successive suffixes of the normalised
  texts, nothing already typed is typed again, and all the keystrokes emitted equal the
  normalised form of the last update.
\<close>

theorem prefix_extensions_emit_suffixes:
  assumes "\<forall>t \<in> set ts. str_split t \<noteq> [] \<and> \<not> endswith t '' ''"
    and "prefix_chain [] (map clean_text ts)"
    and "ts \<noteq> []"
  shows "emitted_keystrokes ts (start_typing_session ti)
           = successive_suffixes [] (map clean_text ts) \<and>
         concat (emitted_keystrokes ts (start_typing_session ti)) = clean_text (last ts) \<and>
         controller (insert_all ts (start_typing_session ti))
           = controller ti @ clean_text (last ts)"
proof -
  let ?s = "start_typing_session ti"
  have l: "last_typed_text ?s = []" by (simp add: start_typing_session_def)
  have "([]::string) \<noteq> [] \<longrightarrow> \<not> py_isspace (last [])" by simp
  with l have *: "emitted_keystrokes ts ?s = successive_suffixes [] (map clean_text ts) \<and>
         controller (insert_all ts ?s) = controller ?s @ concat (emitted_keystrokes ts ?s) \<and>
         last_typed_text (insert_all ts ?s) = last ([] # map clean_text ts)"
    using assms(1,2) by (rule insert_all_extensions)
  have "concat (successive_suffixes [] (map clean_text ts)) = last ([] # map clean_text ts)"
    using concat_successive_suffixes [OF assms(2)] by simp
  also have "\<dots> = clean_text (last ts)"
    using assms(3) by (simp add: last_map)
  finally have c: "concat (successive_suffixes [] (map clean_text ts)) = clean_text (last ts)" .
  have "controller ?s = controller ti" by (simp add: start_typing_session_def)
  with * c show ?thesis by simp
qed

theorem prefix_extensions_emit_suffixes_witness:
  "emitted_keystrokes [''hello'', ''hello wor'', ''hello wor'', ''hello   world. How'']
     (start_typing_session
        \<lparr>controller = [], last_typed_text = ''old'', is_typing_session_active = False\<rparr>)
     = [''hello'', '' wor'', [], ''ld. How''] \<and>
   controller (insert_all [''hello'', ''hello wor'', ''hello wor'', ''hello   world. How'']
     (start_typing_session
        \<lparr>controller = [], last_typed_text = ''old'', is_typing_session_active = False\<rparr>))
     = ''hello world. How''"
proof -
  let ?ts = "[''hello'', ''hello wor'', ''hello wor'', ''hello   world. How'']"
  have s: "str_split ''hello'' = [''hello'']" "str_split ''hello wor'' = [''hello'', ''wor'']"
    "str_split ''hello   world. How'' = [''hello'', ''world.'', ''How'']"
    by code_simp+
  have c: "clean_text ''hello'' = ''hello''" "clean_text ''hello wor'' = ''hello wor''"
    "clean_text ''hello   world. How'' = ''hello world. How''"
    by code_simp+
  have 1: "\<forall>t \<in> set ?ts. str_split t \<noteq> [] \<and> \<not> endswith t '' ''"
    by (simp add: s endswith_def)
  have 2: "prefix_chain [] (map clean_text ?ts)"
    by (simp add: c startswith_def)
  have 3: "?ts \<noteq> []" by simp
  let ?ti = "\<lparr>controller = [], last_typed_text = ''old'', is_typing_session_active = False\<rparr>"
  from prefix_extensions_emit_suffixes [OF 1 2 3, of ?ti]
  have A: "emitted_keystrokes ?ts (start_typing_session ?ti)
             = successive_suffixes [] (map clean_text ?ts)"
    and B: "controller (insert_all ?ts (start_typing_session ?ti))
             = controller ?ti @ clean_text (last ?ts)"
    by blast+
  have "successive_suffixes [] (map clean_text ?ts) = [''hello'', '' wor'', [], ''ld. How'']"
    by (simp add: c)
  with A have A': "emitted_keystrokes ?ts (start_typing_session ?ti)
             = [''hello'', '' wor'', [], ''ld. How'']"
    by (rule trans)
  have "controller ?ti @ clean_text (last ?ts) = ''hello world. How''"
    by (simp add: c)
  with B have B': "controller (insert_all ?ts (start_typing_session ?ti)) = ''hello world. How''"
    by (rule trans)
  from A' B' show ?thesis by (rule conjI)
qed

text \<open>
  As stated on the texts themselves the property fails. \<open>a\<close> followed by \<open>a\<close> and a
  space is a prefix extension, but the blank suffix is not typed, so the keystrokes
  emitted are \<open>a\<close>, not the last text. And a single text with a tab between two words
  is typed with a space in its place.
\<close>

theorem prefix_extension_blank_suffix_counterexample:
  "prefix_chain [] [''a'', ''a ''] \<and>
   concat (emitted_keystrokes [''a'', ''a '']
     (start_typing_session
        \<lparr>controller = [], last_typed_text = [], is_typing_session_active = False\<rparr>))
     = ''a'' \<and>
   concat (emitted_keystrokes [''a'', ''a '']
     (start_typing_session
        \<lparr>controller = [], last_typed_text = [], is_typing_session_active = False\<rparr>))
     \<noteq> last [''a'', ''a ''] \<and>
   prefix_chain [] [[CHR ''a'', CHR 0x09, CHR ''b'']] \<and>
   concat (emitted_keystrokes [[CHR ''a'', CHR 0x09, CHR ''b'']]
     (start_typing_session
        \<lparr>controller = [], last_typed_text = [], is_typing_session_active = False\<rparr>))
     = ''a b''"
proof -
  have 1: "concat (emitted_keystrokes [''a'', ''a '']
     (start_typing_session
        \<lparr>controller = [], last_typed_text = [], is_typing_session_active = False\<rparr>))
     = ''a''"
    by code_simp
  have 2: "concat (emitted_keystrokes [[CHR ''a'', CHR 0x09, CHR ''b'']]
     (start_typing_session
        \<lparr>controller = [], last_typed_text = [], is_typing_session_active = False\<rparr>))
     = ''a b''"
    by code_simp
  have 3: "concat (emitted_keystrokes [''a'', ''a '']
     (start_typing_session
        \<lparr>controller = [], last_typed_text = [], is_typing_session_active = False\<rparr>))
     \<noteq> last [''a'', ''a '']"
    unfolding 1 by simp
  have p1: "prefix_chain [] [''a'', ''a '']"
    by (simp add: startswith_def)
  have p2: "prefix_chain [] [[CHR ''a'', CHR 0x09, CHR ''b'']]"
    by (simp add: startswith_def)
  from p1 1 3 p2 2 show ?thesis by (intro conjI)
qed

section \<open>\_extract\_transcription: the stable text of a message\<close>

lemma collapse_cons_cons:
  "collapse_space_runs (p # a # r) =
     (if p = CHR '' '' \<and> a = CHR '' '' then collapse_space_runs (a # r)
      else p # collapse_space_runs (a # r))"
  by simp

lemma collapse_cons_replace:
  "collapse_space_runs (p # replace_double_space s) = collapse_space_runs (p # s)"
proof (induction s arbitrary: p rule: replace_double_space.induct)
  case (1 a b r)
  show ?case
  proof (cases "a = CHR '' '' \<and> b = CHR '' ''")
    case True
    have R: "replace_double_space (a # b # r) = CHR '' '' # replace_double_space r"
      using True by simp
    have IH: "collapse_space_runs (CHR '' '' # replace_double_space r)
        = collapse_space_runs (CHR '' '' # r)"
      using True by (rule "1.IH"(1))
    have "collapse_space_runs (p # replace_double_space (a # b # r))
        = (if p = CHR '' '' then collapse_space_runs (CHR '' '' # r)
           else p # collapse_space_runs (CHR '' '' # r))"
      unfolding R collapse_cons_cons IH by simp
    also have "\<dots> = collapse_space_runs (p # CHR '' '' # CHR '' '' # r)"
      by simp
    finally show ?thesis using True by simp
  next
    case False
    have R: "replace_double_space (a # b # r) = a # replace_double_space (b # r)"
      using False by auto
    have IH: "collapse_space_runs (a # replace_double_space (b # r))
        = collapse_space_runs (a # b # r)"
      using False by (rule "1.IH"(2))
    show ?thesis
      unfolding R by (simp only: collapse_cons_cons [of p a] IH)
  qed
qed simp_all

lemma collapse_replace:
  "collapse_space_runs (replace_double_space s) = collapse_space_runs s"
proof -
  have "collapse_space_runs (CHR ''x'' # t) = CHR ''x'' # collapse_space_runs t" for t
    by (cases t) simp_all
  with collapse_cons_replace [of "CHR ''x''" s] show ?thesis by simp
qed

lemma collapse_no_double:
  "\<not> contains_double_space s \<Longrightarrow> collapse_space_runs s = s"
  by (induction s rule: collapse_space_runs.induct) auto

lemma normalize_spaces_collapse: "normalize_spaces s = collapse_space_runs s"
proof (induction s rule: normalize_spaces.induct)
  case (1 result)
  show ?case
  proof (cases "contains_double_space result")
    case True
    then have "normalize_spaces result = normalize_spaces (replace_double_space result)"
      by (subst normalize_spaces.simps) simp
    also have "\<dots> = collapse_space_runs (replace_double_space result)"
      using True by (rule "1.IH")
    finally show ?thesis by (simp add: collapse_replace)
  next
    case False
    then have "normalize_spaces result = result"
      by (subst normalize_spaces.simps) simp
    with False show ?thesis by (simp add: collapse_no_double)
  qed
qed

lemma normalize_spaces_no_double: "\<not> contains_double_space (normalize_spaces s)"
proof (induction s rule: normalize_spaces.induct)
  case (1 result)
  show ?case
  proof (cases "contains_double_space result")
    case True
    then have "normalize_spaces result = normalize_spaces (replace_double_space result)"
      by (subst normalize_spaces.simps) simp
    with "1.IH" [OF True] show ?thesis by simp
  next
    case False
    then have "normalize_spaces result = result"
      by (subst normalize_spaces.simps) simp
    with False show ?thesis by simp
  qed
qed

lemma collapse_ends:
  "s \<noteq> [] \<Longrightarrow> collapse_space_runs s \<noteq> [] \<and> hd (collapse_space_runs s) = hd s
     \<and> last (collapse_space_runs s) = last s"
  by (induction s rule: collapse_space_runs.induct) auto

lemma strip_first: "strip s \<noteq> [] \<Longrightarrow> \<not> py_isspace (hd (strip s))"
  unfolding strip_def lstrip_def by (rule hd_dropWhile)

lemma strip_id:
  assumes "s \<noteq> []" "\<not> py_isspace (hd s)" "\<not> py_isspace (last s)"
  shows "strip s = s"
proof -
  have "rstrip s = s" using assms(1,3) by (rule rstrip_id)
  moreover have "dropWhile py_isspace s = s" using assms(1,2) by (cases s) simp_all
  ultimately show ?thesis by (simp add: strip_def lstrip_def)
qed

lemma strip_Nil: "strip [] = []"
  by (simp add: strip_def lstrip_def rstrip_def)

lemma collapse_strip_trimmed:
  "strip (collapse_space_runs (strip s)) = collapse_space_runs (strip s)"
proof (cases "strip s = []")
  case True
  then show ?thesis by (simp add: strip_Nil)
next
  case False
  note e = collapse_ends [OF False]
  show ?thesis
    using e strip_first [OF False] strip_last [OF False] by (simp add: strip_id)
qed

lemma collect_stable_parts_text_lines:
  "\<forall>l \<in> set ls. is_text_line l \<Longrightarrow>
     collect_stable_parts ls acc
       = Inr (acc @ map strip (filter (\<lambda>t. t \<noteq> []) (map line_text ls)))"
proof (induction ls arbitrary: acc)
  case Nil
  then show ?case by simp
next
  case (Cons l ls)
  then have l: "is_text_line l" and ls: "\<forall>l \<in> set ls. is_text_line l" by simp_all
  from l obtain line where line: "l = JObj line" by (cases l) simp_all
  show ?case
  proof (cases "dict_get line ''text'' JNull")
    case (JStr s)
    then show ?thesis using Cons.IH [OF ls] line by simp
  qed (use l line Cons.IH [OF ls] in simp_all)
qed

text \<open>
  C8 (as amended). For every decoded message that is an object whose \<open>lines\<close> member is
  a list of well-formed lines, the extracted stable text is obtained by collecting the
  non-empty \<open>text\<close> fields of the lines, trimming each collected text, joining them
  with a single space, trimming, and collapsing every run of two or more spaces into
  one; it has no two adjacent spaces and no leading or trailing whitespace.
\<close>

theorem extract_transcription_stable_text:
  assumes "dict_get data ''lines'' (JArr []) = JArr ls"
    and "\<forall>l \<in> set ls. is_text_line l"
  shows "extract_transcription (JObj data)
           = Inr (collapse_space_runs (strip (str_join '' ''
                    (map strip (filter (\<lambda>t. t \<noteq> []) (map line_text ls))))))
         \<and> (\<forall>r. extract_transcription (JObj data) = Inr r \<longrightarrow>
                \<not> contains_double_space r \<and> strip r = r)"
proof -
  let ?parts = "map strip (filter (\<lambda>t. t \<noteq> []) (map line_text ls))"
  have c: "collect_stable_parts ls [] = Inr ?parts"
    using collect_stable_parts_text_lines [OF assms(2), of "[]"] by simp
  have j: "(if ?parts \<noteq> [] then strip (str_join '' '' ?parts) else [])
             = strip (str_join '' '' ?parts)"
    by (simp add: strip_Nil)
  have e: "extract_transcription (JObj data) = Inr (normalize_spaces (strip (str_join '' '' ?parts)))"
    using assms(1) c j by simp
  have 1: "extract_transcription (JObj data)
      = Inr (collapse_space_runs (strip (str_join '' '' ?parts)))"
    by (simp only: e normalize_spaces_collapse)
  have 2: "\<not> contains_double_space (collapse_space_runs (strip (str_join '' '' ?parts)))"
    unfolding normalize_spaces_collapse [symmetric] by (rule normalize_spaces_no_double)
  have 3: "strip (collapse_space_runs (strip (str_join '' '' ?parts)))
      = collapse_space_runs (strip (str_join '' '' ?parts))"
    by (rule collapse_strip_trimmed)
  have 4: "\<forall>r. extract_transcription (JObj data) = Inr r \<longrightarrow>
                \<not> contains_double_space r \<and> strip r = r"
  proof (intro allI impI)
    fix r
    assume "extract_transcription (JObj data) = Inr r"
    with 1 have r: "r = collapse_space_runs (strip (str_join '' '' ?parts))" by simp
    have "\<not> contains_double_space r" unfolding r by (rule 2)
    moreover have "strip r = r" unfolding r by (rule 3)
    ultimately show "\<not> contains_double_space r \<and> strip r = r" by (rule conjI)
  qed
  from 1 4 show ?thesis by (rule conjI)
qed

theorem extract_transcription_stable_text_witness:
  "extract_transcription
     (JObj [(''type'', JStr ''update''),
            (''lines'', JArr [JObj [(''speaker'', JNum 1), (''text'', JStr '' Hello   there '')],
                              JObj [(''text'', JStr [])],
                              JObj [(''speaker'', JNum 2)],
                              JObj [(''text'', JStr ''world'')]])])
   = Inr ''Hello there world''"
proof -
  let ?ls = "[JObj [(''speaker'', JNum 1), (''text'', JStr '' Hello   there '')],
              JObj [(''text'', JStr [])],
              JObj [(''speaker'', JNum 2)],
              JObj [(''text'', JStr ''world'')]]"
  let ?data = "[(''type'', JStr ''update''), (''lines'', JArr ?ls)]"
  have 1: "dict_get ?data ''lines'' (JArr []) = JArr ?ls"
    by (simp add: dict_get_def)
  have 2: "\<forall>l \<in> set ?ls. is_text_line l"
    by (simp add: dict_get_def)
  have s: "strip '' Hello   there '' = ''Hello   there''" "strip ''world'' = ''world''"
    "strip ''Hello   there world'' = ''Hello   there world''"
    by code_simp+
  from extract_transcription_stable_text [OF 1 2]
  have "extract_transcription (JObj ?data)
           = Inr (collapse_space_runs (strip (str_join '' ''
                    (map strip (filter (\<lambda>t. t \<noteq> []) (map line_text ?ls))))))"
    by (rule conjunct1)
  also have "\<dots> = Inr ''Hello there world''"
    by (simp add: dict_get_def s)
  finally show ?thesis .
qed

text \<open>
  The rule as worded, without trimming each text first, differs from the code on a
  text that ends with a tab: the code yields \<open>a b\<close>, the rule keeps the tab.
\<close>

theorem extract_transcription_untrimmed_counterexample:
  "extract_transcription
     (JObj [(''lines'', JArr [JObj [(''text'', JStr [CHR ''a'', CHR 0x09])],
                              JObj [(''text'', JStr ''b'')]])])
   \<noteq> Inr (spec_stable_text
            (map line_text [JObj [(''text'', JStr [CHR ''a'', CHR 0x09])],
                            JObj [(''text'', JStr ''b'')]]))"
proof -
  have "extract_transcription
     (JObj [(''lines'', JArr [JObj [(''text'', JStr [CHR ''a'', CHR 0x09])],
                              JObj [(''text'', JStr ''b'')]])]) = Inr ''a b''"
    by code_simp
  moreover have "spec_stable_text
            (map line_text [JObj [(''text'', JStr [CHR ''a'', CHR 0x09])],
                            JObj [(''text'', JStr ''b'')]])
       = [CHR ''a'', CHR 0x09, CHR '' '', CHR ''b'']"
    by code_simp
  ultimately show ?thesis by simp
qed

section \<open>\_handle\_message: the terminal event\<close>

lemma handle_ready_to_stop_with_text:
  assumes "dict_get data ''type'' (JStr []) = JStr ''ready_to_stop''"
    and "transcription_callback c"
    and "extract_transcription (JObj data) = Inr final_text"
    and "strip final_text \<noteq> []"
  shows "handle_message (JObj data) c ti = Inr (end_typing_session (insert_text final_text ti))"
  using assms by simp

text \<open>
  C6. On a \<open>ready_to_stop\<close> message the handler applies the final text and ends the
  typing session only when the extracted final text is not blank: for a terminal
  message without text (no \<open>lines\<close>, or an empty list) it returns the TextInserter
  unchanged, so a session that was active stays active.
\<close>

theorem ready_to_stop_without_text_leaves_session_active:
  "handle_message (JObj [(''type'', JStr ''ready_to_stop'')]) c ti = Inr ti \<and>
   handle_message (JObj [(''type'', JStr ''ready_to_stop''), (''lines'', JArr [])]) c ti = Inr ti \<and>
   (\<exists>ti'. handle_message (JObj [(''type'', JStr ''ready_to_stop'')]) c (start_typing_session ti)
            = Inr ti' \<and> is_typing_session_active ti')"
proof -
  have n: "normalize_spaces [] = []"
    by (subst normalize_spaces.simps) simp
  have s: "strip [] = []" by (rule strip_Nil)
  have 1: "handle_message (JObj [(''type'', JStr ''ready_to_stop'')]) c t = Inr t" for t
    by (simp add: dict_get_def n s)
  have 2: "handle_message (JObj [(''type'', JStr ''ready_to_stop''), (''lines'', JArr [])]) c ti
      = Inr ti"
    by (simp add: dict_get_def n s)
  have 3: "is_typing_session_active (start_typing_session ti)"
    by (simp add: start_typing_session_def)
  from 1 2 3 show ?thesis by blast
qed

section \<open>listen\_for\_messages: a message that cannot be decoded\<close>

lemma listen_loop_decoded_prefix:
  "handle_all ds c ti = Inr ti' \<Longrightarrow>
     listen_loop (map Decoded ds @ later) c ti = listen_loop later c ti'"
proof (induction ds arbitrary: ti)
  case Nil
  then show ?case by simp
next
  case (Cons d ds)
  then obtain t where t: "handle_message d c ti = Inr t" and r: "handle_all ds c t = Inr ti'"
    by (auto split: sum.splits)
  from Cons.IH [OF r] t show ?case by simp
qed

text \<open>
  C1 (as amended). When one message cannot be decoded, \<open>listen_for_messages\<close> logs the
  decode error and ends the receive loop: the messages received before it have been
  handled, no message after it is delivered, and \<open>is_connected\<close> is left as it was.
\<close>

theorem listen_for_messages_stops_at_undecodable:
  assumes "websocket c \<noteq> None"
    and "handle_all ds c ti = Inr ti'"
  shows "listen_for_messages (map Decoded ds @ Undecodable # later) c ti
           = (c\<lparr>errors_logged := errors_logged c @ [JsonDecodeError]\<rparr>, ti')"
proof -
  have "listen_for_messages (map Decoded ds @ Undecodable # later) c ti
      = listen_loop (map Decoded ds @ Undecodable # later) c ti"
    using assms(1) by (auto simp: listen_for_messages_def)
  also have "\<dots> = listen_loop (Undecodable # later) c ti'"
    using assms(2) by (rule listen_loop_decoded_prefix)
  finally show ?thesis by simp
qed

theorem listen_for_messages_stops_at_undecodable_witness:
  "listen_for_messages
     [Decoded (JObj [(''lines'', JArr [JObj [(''text'', JStr ''hi'')]])]),
      Undecodable,
      Decoded (JObj [(''lines'', JArr [JObj [(''text'', JStr ''hi there'')]])])]
     \<lparr>websocket = Some \<lparr>frames = [], outcomes = []\<rparr>, is_connected = True,
      transcription_callback = True, errors_logged = []\<rparr>
     \<lparr>controller = [], last_typed_text = [], is_typing_session_active = True\<rparr>
   = (\<lparr>websocket = Some \<lparr>frames = [], outcomes = []\<rparr>, is_connected = True,
       transcription_callback = True, errors_logged = [JsonDecodeError]\<rparr>,
      \<lparr>controller = ''hi'', last_typed_text = ''hi'', is_typing_session_active = True\<rparr>)"
proof -
  let ?c = "\<lparr>websocket = Some \<lparr>frames = [], outcomes = []\<rparr>, is_connected = True,
      transcription_callback = True, errors_logged = []\<rparr>"
  let ?ti = "\<lparr>controller = [], last_typed_text = [], is_typing_session_active = True\<rparr>"
  let ?m = "JObj [(''lines'', JArr [JObj [(''text'', JStr ''hi'')]])]"
  have 1: "websocket ?c \<noteq> None" by simp
  have 2: "handle_all [?m] ?c ?ti
     = Inr \<lparr>controller = ''hi'', last_typed_text = ''hi'', is_typing_session_active = True\<rparr>"
    by code_simp
  show ?thesis
    using listen_for_messages_stops_at_undecodable [OF 1 2,
        of "[Decoded (JObj [(''lines'', JArr [JObj [(''text'', JStr ''hi there'')]])])]"]
    by simp
qed

text \<open>
  The message after the undecodable one is not delivered: with the undecodable
  message first nothing is typed, without it \<open>hi\<close> is typed.
\<close>

theorem listen_for_messages_skip_counterexample:
  "controller (snd (listen_for_messages
     [Undecodable, Decoded (JObj [(''lines'', JArr [JObj [(''text'', JStr ''hi'')]])])]
     \<lparr>websocket = Some \<lparr>frames = [], outcomes = []\<rparr>, is_connected = True,
      transcription_callback = True, errors_logged = []\<rparr>
     \<lparr>controller = [], last_typed_text = [], is_typing_session_active = True\<rparr>)) = []
   \<and> controller (snd (listen_for_messages
     [Decoded (JObj [(''lines'', JArr [JObj [(''text'', JStr ''hi'')]])])]
     \<lparr>websocket = Some \<lparr>frames = [], outcomes = []\<rparr>, is_connected = True,
      transcription_callback = True, errors_logged = []\<rparr>
     \<lparr>controller = [], last_typed_text = [], is_typing_session_active = True\<rparr>)) = ''hi''"
  by code_simp

section \<open>send\_audio: disconnected clients and failing sends\<close>

text \<open>
  C5 (as amended). \<open>send_audio\<close> on a client that has no socket or is not connected
  returns normally without sending and without an error. On a connected client it
  makes exactly one attempt to send: if the attempt fails, the failure is logged, the
  client sets \<open>is_connected\<close> to false, nothing is written and the error is raised to
  the caller; if it succeeds the frame is written and the client stays connected.
\<close>

theorem send_audio_failure_disconnects:
  "(websocket c = None \<or> \<not> is_connected c \<longrightarrow> send_audio audio_data c = (None, c)) \<and>
   (\<forall>s. websocket c = Some s \<and> is_connected c \<longrightarrow>
      (case send_audio audio_data c of
         (Some e, c') \<Rightarrow>
            e = SendFailure \<and> \<not> is_connected c' \<and>
            errors_logged c' = errors_logged c @ [FailedToSendAudio] \<and>
            (\<exists>s'. websocket c' = Some s' \<and> frames s' = frames s \<and>
                  outcomes s = False # outcomes s')
       | (None, c') \<Rightarrow>
            is_connected c' \<and> errors_logged c' = errors_logged c \<and>
            (\<exists>s'. websocket c' = Some s' \<and> frames s' = frames s @ [audio_data] \<and>
                  (outcomes s = [] \<and> outcomes s' = [] \<or> outcomes s = True # outcomes s'))))"
proof (intro conjI allI impI)
  assume "websocket c = None \<or> \<not> is_connected c"
  then show "send_audio audio_data c = (None, c)"
    by (auto split: option.splits)
next
  fix s
  assume a: "websocket c = Some s \<and> is_connected c"
  show "case send_audio audio_data c of
         (Some e, c') \<Rightarrow>
            e = SendFailure \<and> \<not> is_connected c' \<and>
            errors_logged c' = errors_logged c @ [FailedToSendAudio] \<and>
            (\<exists>s'. websocket c' = Some s' \<and> frames s' = frames s \<and>
                  outcomes s = False # outcomes s')
       | (None, c') \<Rightarrow>
            is_connected c' \<and> errors_logged c' = errors_logged c \<and>
            (\<exists>s'. websocket c' = Some s' \<and> frames s' = frames s @ [audio_data] \<and>
                  (outcomes s = [] \<and> outcomes s' = [] \<or> outcomes s = True # outcomes s'))"
  proof (cases "outcomes s")
    case Nil
    with a show ?thesis by simp
  next
    case (Cons ok later)
    with a show ?thesis by (cases ok) simp_all
  qed
qed

theorem send_audio_failure_disconnects_witness:
  "send_audio [1, 2]
     \<lparr>websocket = Some \<lparr>frames = [[7]], outcomes = [False, True]\<rparr>, is_connected = True,
      transcription_callback = True, errors_logged = []\<rparr>
   = (Some SendFailure,
      \<lparr>websocket = Some \<lparr>frames = [[7]], outcomes = [True]\<rparr>, is_connected = False,
       transcription_callback = True, errors_logged = [FailedToSendAudio]\<rparr>)"
proof -
  let ?c = "\<lparr>websocket = Some \<lparr>frames = [[7]], outcomes = [False, True]\<rparr>, is_connected = True,
      transcription_callback = True, errors_logged = []\<rparr>"
  obtain e c' where r: "send_audio [1, 2] ?c = (e, c')" by (cases "send_audio [1, 2] ?c")
  have "e \<noteq> None" using r by auto
  then obtain x where e: "e = Some x" by auto
  from send_audio_failure_disconnects [of ?c "[1, 2]"]
  have "x = SendFailure \<and> \<not> is_connected c'"
    using r e by auto
  then show ?thesis using r e by auto
qed

text \<open>
  No error is raised on a disconnected client: the call returns normally and
  nothing is sent.
\<close>

theorem send_audio_disconnected_counterexample:
  "send_audio [1, 2]
     \<lparr>websocket = Some \<lparr>frames = [], outcomes = []\<rparr>, is_connected = False,
      transcription_callback = True, errors_logged = []\<rparr>
   = (None,
      \<lparr>websocket = Some \<lparr>frames = [], outcomes = []\<rparr>, is_connected = False,
       transcription_callback = True, errors_logged = []\<rparr>)
   \<and> fst (send_audio [1, 2]
     \<lparr>websocket = None, is_connected = False,
      transcription_callback = True, errors_logged = []\<rparr>) \<noteq> Some SendFailure"
  by simp

section \<open>create\_wav\_header: the 44-byte stream header\<close>



lemma to_bytes_valid: "0 \<le> n \<Longrightarrow> n < 256 ^ k \<Longrightarrow> to_bytes n k = Inr (le_bytes n k)"
  by (simp add: to_bytes_def)


lemma create_wav_header_valid:
  assumes "0 \<le> sample_rate" "sample_rate < 2 ^ 32"
    and "0 \<le> channels" "channels < 2 ^ 16"
    and "0 \<le> sample_width" "sample_width * 8 < 2 ^ 16"
    and "sample_rate * channels * sample_width < 2 ^ 32"
    and "channels * sample_width < 2 ^ 16"
  shows "create_wav_header sample_rate channels sample_width =
     Inr (bytes_literal ''RIFF'' @ le_bytes 0xFFFFFFFF 4 @ bytes_literal ''WAVE'' @
          bytes_literal ''fmt '' @ le_bytes 16 4 @ le_bytes 1 2 @ le_bytes channels 2 @
          le_bytes sample_rate 4 @ le_bytes (sample_rate * channels * sample_width) 4 @
          le_bytes (channels * sample_width) 2 @ le_bytes (sample_width * 8) 2 @
          bytes_literal ''data'' @ le_bytes 0xFFFFFFFF 4)"
proof -
  have br: "0 \<le> sample_rate * channels * sample_width"
    using assms(1,3,5) by simp
  have ba: "0 \<le> channels * sample_width"
    using assms(3,5) by simp
  have t: "to_bytes 0xFFFFFFFF 4 = Inr (le_bytes 0xFFFFFFFF 4)"
    "to_bytes 16 4 = Inr (le_bytes 16 4)" "to_bytes 1 2 = Inr (le_bytes 1 2)"
    by (simp_all add: to_bytes_def)
  have u: "to_bytes channels 2 = Inr (le_bytes channels 2)"
    "to_bytes sample_rate 4 = Inr (le_bytes sample_rate 4)"
    "to_bytes (sample_rate * channels * sample_width) 4
       = Inr (le_bytes (sample_rate * channels * sample_width) 4)"
    "to_bytes (channels * sample_width) 2 = Inr (le_bytes (channels * sample_width) 2)"
    "to_bytes (sample_width * 8) 2 = Inr (le_bytes (sample_width * 8) 2)"
    using assms br ba by (simp_all add: to_bytes_valid)
  show ?thesis
    unfolding create_wav_header_def Let_def t u by simp
qed



section \<open>\_stream\_audio: the stream header\<close>

lemma send_from_fields:
  assumes "send_from site d st = (e, st')"
  shows "send_calls st' = send_calls st @ [(site, d)]"
    and "wav_header_sent st' = wav_header_sent st"
    and "accumulated_audio st' = accumulated_audio st"
  using assms by (auto simp: send_from_def split: prod.splits)

lemma header_then_pcm_snoc:
  "header_then_pcm h calls \<Longrightarrow> header_then_pcm h (calls @ [(PcmPayload, d)])"
  by (cases calls) simp_all

lemma header_first_snoc:
  "header_first r ch sw calls \<Longrightarrow> header_first r ch sw (calls @ [(PcmPayload, d)])"
  by (auto simp: header_first_def header_then_pcm_snoc split: sum.splits)

lemma header_first_filter:
  assumes "header_first r ch sw calls"
  shows "length (filter (\<lambda>x. fst x = StreamHeader) calls) = 1"
proof -
  from assms obtain h where h: "header_then_pcm h calls"
    by (auto simp: header_first_def split: sum.splits)
  then obtain xs where c: "calls = (StreamHeader, h) # xs"
    and p: "list_all (\<lambda>y. fst y = PcmPayload) xs"
    by (cases calls) auto
  from p have "filter (\<lambda>x. fst x = StreamHeader) xs = []"
    by (induction xs) auto
  with c show ?thesis by simp
qed

lemma send_wav_header_post:
  assumes "send_wav_header r ch sw st = (e, st')"
    and "loop_invariant r ch sw st"
  shows "accumulated_audio st' = accumulated_audio st"
    and "e = None \<Longrightarrow> wav_header_sent st' \<and> header_first r ch sw (send_calls st')"
    and "send_calls st' = [] \<or> header_first r ch sw (send_calls st')"
    and "e \<noteq> None \<Longrightarrow> \<not> wav_header_sent st'"
proof -
  show "\<not> wav_header_sent st'" if "e \<noteq> None"
    using assms(1) that
    by (auto simp: send_wav_header_def send_from_def split: if_splits sum.splits prod.splits option.splits)
  show "accumulated_audio st' = accumulated_audio st"
    using assms(1)
    by (auto simp: send_wav_header_def send_from_def split: if_splits sum.splits prod.splits option.splits)
  show a: "wav_header_sent st' \<and> header_first r ch sw (send_calls st')" if "e = None"
    using assms that
    by (auto simp: send_wav_header_def send_from_def loop_invariant_def header_first_def
        split: if_splits sum.splits prod.splits option.splits)
  show "send_calls st' = [] \<or> header_first r ch sw (send_calls st')"
    using assms
    by (auto simp: send_wav_header_def send_from_def loop_invariant_def header_first_def
        split: if_splits sum.splits prod.splits option.splits)
qed

lemma stream_loop_post:
  assumes "loop_invariant r ch sw st"
    and "stream_loop r ch sw its st = (e, st')"
  shows "(send_calls st' = [] \<or> header_first r ch sw (send_calls st')) \<and>
         (wav_header_sent st' \<longrightarrow> header_first r ch sw (send_calls st')) \<and>
         (e = None \<longrightarrow> loop_invariant r ch sw st')"
  using assms
proof (induction its arbitrary: st)
  case Nil
  then show ?case by (auto simp: loop_invariant_def split: if_splits)
next
  case (Cons it its)
  obtain a t where it: "it = (a, t)" by (cases it)
  show ?case
  proof (cases "a \<noteq> None \<and> a \<noteq> Some []")
    case False
    with Cons.prems(2) it have "stream_loop r ch sw its st = (e, st')" by auto
    with Cons.prems(1) show ?thesis by (rule Cons.IH)
  next
    case True
    let ?st1 = "st\<lparr>accumulated_audio := accumulated_audio st @ the a\<rparr>"
    have inv1: "loop_invariant r ch sw ?st1"
      using Cons.prems(1) by (simp add: loop_invariant_def)
    show ?thesis
    proof (cases "t - last_send_time ?st1 \<ge> 1 \<and> accumulated_audio ?st1 \<noteq> []")
      case False
      with True Cons.prems(2) it have "stream_loop r ch sw its ?st1 = (e, st')"
        by (auto simp: Let_def split: if_splits)
      with inv1 show ?thesis by (rule Cons.IH)
    next
      case flush: True
      obtain e2 st2 where h: "send_wav_header r ch sw ?st1 = (e2, st2)"
        by (cases "send_wav_header r ch sw ?st1")
      note hp = send_wav_header_post [OF h inv1]
      show ?thesis
      proof (cases e2)
        case (Some x)
        with True flush Cons.prems(2) it h have "e = Some x" "st' = st2"
          by (auto simp: Let_def)
        with hp(3) hp(4) Some show ?thesis by simp
      next
        case None
        obtain e3 st3 where p: "send_from PcmPayload (accumulated_audio st2) st2 = (e3, st3)"
          by (cases "send_from PcmPayload (accumulated_audio st2) st2")
        note sf = send_from_fields [OF p]
        from hp(2) [OF None] have hf3: "header_first r ch sw (send_calls st3)"
          and w3: "wav_header_sent st3"
          by (simp_all add: sf header_first_snoc)
        show ?thesis
        proof (cases e3)
          case (Some y)
          with None True flush Cons.prems(2) it h p have "e = Some y" "st' = st3"
            by (auto simp: Let_def)
          with hf3 show ?thesis by simp
        next
          case n3: None
          let ?st4 = "st3\<lparr>accumulated_audio := [], last_send_time := t\<rparr>"
          have inv4: "loop_invariant r ch sw ?st4"
            using hf3 w3 by (simp add: loop_invariant_def)
          from n3 None True flush Cons.prems(2) it h p
          have "stream_loop r ch sw its ?st4 = (e, st')"
            by (auto simp: Let_def)
          with inv4 show ?thesis by (rule Cons.IH)
        qed
      qed
    qed
  qed
qed

declare send_audio.simps [simp del]

lemma send_audio_not_sending: "not_sending c \<Longrightarrow> send_audio d c = (None, c)"
  by (auto simp: not_sending_def send_audio.simps split: option.splits)

lemma send_audio_sending:
  assumes "\<not> not_sending c" "send_audio d c = (e, c')"
  shows "(e = None \<and> wire c' = wire c @ [d]) \<or> (e \<noteq> None \<and> wire c' = wire c \<and> not_sending c')"
proof -
  from assms(1) obtain s where s: "websocket c = Some s" and con: "is_connected c"
    by (auto simp: not_sending_def)
  show ?thesis
  proof (cases "outcomes s")
    case Nil
    with s con assms(2) show ?thesis by (auto simp: wire_def send_audio.simps)
  next
    case (Cons ok later)
    with s con assms(2) show ?thesis
      by (cases ok) (auto simp: wire_def not_sending_def send_audio.simps)
  qed
qed

lemma send_from_written:
  assumes "send_from site d st = (e, st')" "written_prefix w0 st"
  shows "written_prefix w0 st'"
proof -
  obtain c' where sa: "send_audio d (client st) = (e, c')"
    and st': "st' = st\<lparr>client := c', send_calls := send_calls st @ [(site, d)]\<rparr>"
    using assms(1) by (auto simp: send_from_def split: prod.splits)
  from assms(2) obtain k where k: "k \<le> length (send_calls st)"
    and w: "wire (client st) = w0 @ map snd (take k (send_calls st))"
    and dk: "k < length (send_calls st) \<longrightarrow> not_sending (client st)"
    by (auto simp: written_prefix_def)
  show ?thesis
  proof (cases "not_sending (client st)")
    case True
    with sa have "c' = client st" by (simp add: send_audio_not_sending)
    with True k w show ?thesis
      unfolding written_prefix_def st' by (intro exI [of _ k]) simp
  next
    case False
    with dk k have kl: "k = length (send_calls st)" by auto
    from send_audio_sending [OF False sa] show ?thesis
    proof
      assume "e = None \<and> wire c' = wire (client st) @ [d]"
      with w kl show ?thesis
        unfolding written_prefix_def st' by (intro exI [of _ "Suc k"]) simp
    next
      assume "e \<noteq> None \<and> wire c' = wire (client st) \<and> not_sending c'"
      with w kl show ?thesis
        unfolding written_prefix_def st' by (intro exI [of _ k]) simp
    qed
  qed
qed

lemma send_wav_header_written:
  assumes "send_wav_header r ch sw st = (e, st')" "written_prefix w0 st"
  shows "written_prefix w0 st'"
proof (cases "wav_header_sent st")
  case True
  with assms show ?thesis by (simp add: send_wav_header_def)
next
  case False
  show ?thesis
  proof (cases "create_wav_header r ch sw")
    case (Inl x)
    with False assms show ?thesis by (simp add: send_wav_header_def)
  next
    case (Inr h)
    obtain e1 st1 where s: "send_from StreamHeader h st = (e1, st1)"
      by (cases "send_from StreamHeader h st")
    note w1 = send_from_written [OF s assms(2)]
    show ?thesis
    proof (cases e1)
      case None
      with False Inr s assms(1) have "st' = st1\<lparr>wav_header_sent := True\<rparr>"
        by (simp add: send_wav_header_def)
      with w1 show ?thesis by (simp add: written_prefix_def)
    next
      case (Some x)
      with False Inr s assms(1) have "st' = st1"
        by (simp add: send_wav_header_def)
      with w1 show ?thesis by simp
    qed
  qed
qed

lemma stream_loop_written:
  assumes "written_prefix w0 st"
    and "stream_loop r ch sw its st = (e, st')"
  shows "written_prefix w0 st'"
  using assms
proof (induction its arbitrary: st)
  case Nil
  then show ?case by simp
next
  case (Cons it its)
  obtain a t where it: "it = (a, t)" by (cases it)
  show ?case
  proof (cases "a \<noteq> None \<and> a \<noteq> Some []")
    case False
    with Cons.prems(2) it have "stream_loop r ch sw its st = (e, st')" by auto
    with Cons.prems(1) show ?thesis by (rule Cons.IH)
  next
    case True
    let ?st1 = "st\<lparr>accumulated_audio := accumulated_audio st @ the a\<rparr>"
    have w1: "written_prefix w0 ?st1"
      using Cons.prems(1) by (simp add: written_prefix_def)
    show ?thesis
    proof (cases "t - last_send_time ?st1 \<ge> 1 \<and> accumulated_audio ?st1 \<noteq> []")
      case False
      with True Cons.prems(2) it have "stream_loop r ch sw its ?st1 = (e, st')"
        by (auto simp: Let_def split: if_splits)
      with w1 show ?thesis by (rule Cons.IH)
    next
      case flush: True
      obtain e2 st2 where h: "send_wav_header r ch sw ?st1 = (e2, st2)"
        by (cases "send_wav_header r ch sw ?st1")
      note w2 = send_wav_header_written [OF h w1]
      show ?thesis
      proof (cases e2)
        case (Some x)
        with True flush Cons.prems(2) it h have "st' = st2"
          by (auto simp: Let_def)
        with w2 show ?thesis by simp
      next
        case None
        obtain e3 st3 where p: "send_from PcmPayload (accumulated_audio st2) st2 = (e3, st3)"
          by (cases "send_from PcmPayload (accumulated_audio st2) st2")
        note w3 = send_from_written [OF p w2]
        show ?thesis
        proof (cases e3)
          case (Some y)
          with None True flush Cons.prems(2) it h p have "st' = st3"
            by (auto simp: Let_def)
          with w3 show ?thesis by simp
        next
          case n3: None
          let ?st4 = "st3\<lparr>accumulated_audio := [], last_send_time := t\<rparr>"
          have w4: "written_prefix w0 ?st4"
            using w3 by (simp add: written_prefix_def)
          from n3 None True flush Cons.prems(2) it h p
          have "stream_loop r ch sw its ?st4 = (e, st')"
            by (auto simp: Let_def)
          with w4 show ?thesis by (rule Cons.IH)
        qed
      qed
    qed
  qed
qed

lemma stream_audio_shape:
  assumes "stream_audio r ch sw t0 its c = (e, st)"
  shows "(send_calls st = [] \<or> (\<not> wav_header_sent st \<and> (\<exists>d. send_calls st = [(PcmPayload, d)]))
          \<or> header_first r ch sw (send_calls st))
         \<and> (wav_header_sent st \<longrightarrow> header_first r ch sw (send_calls st))
         \<and> written_prefix (wire c) st"
proof -
  let ?st0 = "\<lparr>accumulated_audio = [], last_send_time = t0, wav_header_sent = False,
              client = c, send_calls = []\<rparr>"
  obtain e1 st1 where l: "stream_loop r ch sw its ?st0 = (e1, st1)"
    by (cases "stream_loop r ch sw its ?st0")
  have inv0: "loop_invariant r ch sw ?st0" by (simp add: loop_invariant_def)
  have w0: "written_prefix (wire c) ?st0" by (simp add: written_prefix_def)
  note post = stream_loop_post [OF inv0 l]
  note w1 = stream_loop_written [OF w0 l]
  show ?thesis
  proof (cases e1)
    case (Some x)
    with l assms have st: "st = st1" by (simp add: stream_audio_def)
    from post w1 show ?thesis unfolding st by blast
  next
    case None
    with post have inv1: "loop_invariant r ch sw st1" by simp
    show ?thesis
    proof (cases "accumulated_audio st1 = []")
      case True
      with None l assms have st: "st = st1" by (simp add: stream_audio_def)
      from inv1 w1 show ?thesis unfolding st by (auto simp: loop_invariant_def split: if_splits)
    next
      case False
      with None l assms have s: "send_from PcmPayload (accumulated_audio st1) st1 = (e, st)"
        by (simp add: stream_audio_def)
      note sf = send_from_fields [OF s]
      note w = send_from_written [OF s w1]
      from inv1 w show ?thesis
        by (auto simp: loop_invariant_def sf header_first_snoc split: if_splits)
    qed
  qed
qed

lemma loop_send_calls_header_first:
  "loop_send_calls r ch sw t0 its c = [] \<or>
   header_first r ch sw (loop_send_calls r ch sw t0 its c)"
proof -
  let ?st0 = "\<lparr>accumulated_audio = [], last_send_time = t0, wav_header_sent = False,
              client = c, send_calls = []\<rparr>"
  obtain e1 st1 where l: "stream_loop r ch sw its ?st0 = (e1, st1)"
    by (cases "stream_loop r ch sw its ?st0")
  have inv0: "loop_invariant r ch sw ?st0" by (simp add: loop_invariant_def)
  from stream_loop_post [OF inv0 l]
  have "send_calls st1 = [] \<or> header_first r ch sw (send_calls st1)" by (rule conjunct1)
  then show ?thesis by (simp add: loop_send_calls_def l)
qed

text \<open>
  C4 (as amended). In every session, whatever the recorder delivers and whether or not
  sends fail, the audio send loop sends the stream header at most once, and strictly
  before any PCM payload frame that it sends: the frames sent from inside the loop are
  either none, or the header first and only PCM payloads after it. The header is the
  value of \<open>create_wav_header\<close> for the session's sample rate, channels and sample
  width, so it is the same bytes in every session with the same parameters. Among all
  the frames of the session the header occurs at most once, and when it occurs it is
  the first frame. The frames written to the socket are the payloads of an initial
  part of the calls, in order.
\<close>

theorem stream_audio_header_before_loop_pcm:
  assumes "stream_audio rate channels sample_width start_time iterations c = (e, st)"
  shows "(loop_send_calls rate channels sample_width start_time iterations c = [] \<or>
          header_first rate channels sample_width
            (loop_send_calls rate channels sample_width start_time iterations c)) \<and>
         length (filter (\<lambda>x. fst x = StreamHeader) (send_calls st)) \<le> 1 \<and>
         ((\<exists>x \<in> set (send_calls st). fst x = StreamHeader) \<longrightarrow>
            header_first rate channels sample_width (send_calls st)) \<and>
         (\<exists>k. wire (client st) = wire c @ map snd (take k (send_calls st)))"
proof -
  let ?loop = "loop_send_calls rate channels sample_width start_time iterations c"
  have 1: "?loop = [] \<or> header_first rate channels sample_width ?loop"
    by (rule loop_send_calls_header_first)
  note sh = stream_audio_shape [OF assms]
  from sh have cases: "send_calls st = [] \<or>
      (\<not> wav_header_sent st \<and> (\<exists>d. send_calls st = [(PcmPayload, d)])) \<or>
      header_first rate channels sample_width (send_calls st)"
    by (rule conjunct1)
  have 3: "length (filter (\<lambda>x. fst x = StreamHeader) (send_calls st)) \<le> 1"
    using cases header_first_filter [of rate channels sample_width "send_calls st"] by auto
  have 4: "(\<exists>x \<in> set (send_calls st). fst x = StreamHeader) \<longrightarrow>
            header_first rate channels sample_width (send_calls st)"
    using cases by auto
  have 5: "\<exists>k. wire (client st) = wire c @ map snd (take k (send_calls st))"
    using sh by (auto simp: written_prefix_def)
  from 1 3 4 5 show ?thesis by blast
qed

theorem stream_audio_header_before_loop_pcm_witness:
  "\<exists>e st h. stream_audio 16000 1 2 0
       [(Some [1, 2], 1/2), (None, 0), (Some [3], 1), (Some [4], 3/2)]
       \<lparr>websocket = Some \<lparr>frames = [], outcomes = []\<rparr>, is_connected = True,
        transcription_callback = True, errors_logged = []\<rparr> = (e, st) \<and>
     create_wav_header 16000 1 2 = Inr h \<and>
     loop_send_calls 16000 1 2 0
       [(Some [1, 2], 1/2), (None, 0), (Some [3], 1), (Some [4], 3/2)]
       \<lparr>websocket = Some \<lparr>frames = [], outcomes = []\<rparr>, is_connected = True,
        transcription_callback = True, errors_logged = []\<rparr>
       = [(StreamHeader, h), (PcmPayload, [1, 2, 3])] \<and>
     send_calls st = [(StreamHeader, h), (PcmPayload, [1, 2, 3]), (PcmPayload, [4])] \<and>
     header_first 16000 1 2 (send_calls st)"
proof -
  let ?c = "\<lparr>websocket = Some \<lparr>frames = [], outcomes = []\<rparr>, is_connected = True,
        transcription_callback = True, errors_logged = []\<rparr>"
  let ?its = "[(Some [1, 2], 1/2), (None, 0), (Some [3], 1), (Some [4], 3/2)]"
  obtain h where h: "create_wav_header 16000 1 2 = Inr h"
    using create_wav_header_valid [of 16000 1 2] by simp
  obtain e st where r: "stream_audio 16000 1 2 0 ?its ?c = (e, st)"
    by (cases "stream_audio 16000 1 2 0 ?its ?c")
  have lp: "loop_send_calls 16000 1 2 0 ?its ?c = [(StreamHeader, h), (PcmPayload, [1, 2, 3])]"
    by (simp add: loop_send_calls_def send_wav_header_def send_from_def h send_audio.simps)
  have calls: "send_calls st = [(StreamHeader, h), (PcmPayload, [1, 2, 3]), (PcmPayload, [4])]"
    using r
    by (auto simp: stream_audio_def send_wav_header_def send_from_def h send_audio.simps
        split: prod.splits)
  have "\<exists>x \<in> set (send_calls st). fst x = StreamHeader"
    by (simp add: calls)
  with stream_audio_header_before_loop_pcm [OF r]
  have "header_first 16000 1 2 (send_calls st)" by blast
  with r h lp calls show ?thesis by blast
qed

text \<open>
  A session in which the recorder delivers nothing sends no header at all, so the
  header is not sent exactly once in every session.
\<close>

theorem stream_audio_no_header_counterexample:
  "length (filter (\<lambda>x. fst x = StreamHeader)
     (send_calls (snd (stream_audio 16000 1 2 0 [(None, 0), (None, 0)]
        \<lparr>websocket = Some \<lparr>frames = [], outcomes = []\<rparr>, is_connected = True,
         transcription_callback = True, errors_logged = []\<rparr>)))) \<noteq> 1"
  by (simp add: stream_audio_def)

text \<open>
  The flush after the loop does not look at \<open>wav_header_sent\<close>: when recording stops
  before the first flush inside the loop, the accumulated audio is written to the
  socket as the only frame, with no header before it.
\<close>

lemma stream_audio_final_flush_without_header:
  "stream_audio 16000 1 2 0 [(Some [1, 2], 1/2)]
     \<lparr>websocket = Some \<lparr>frames = [], outcomes = []\<rparr>, is_connected = True,
      transcription_callback = True, errors_logged = []\<rparr>
   = (None,
      \<lparr>accumulated_audio = [1, 2], last_send_time = 0, wav_header_sent = False,
       client = \<lparr>websocket = Some \<lparr>frames = [[1, 2]], outcomes = []\<rparr>, is_connected = True,
                 transcription_callback = True, errors_logged = []\<rparr>,
       send_calls = [(PcmPayload, [1, 2])]\<rparr>)"
  by (simp add: stream_audio_def send_from_def send_audio.simps)

section \<open>\_stop\_recording: the drain loop\<close>

lemma drain_wait_bound:
  assumes "\<forall>p \<in> set polls. 1/10 \<le> fst p \<and> fst p \<le> D"
    and "max_wait \<le> el + real (length polls) / 10"
  shows "\<exists>t early. drain_wait max_wait el polls = Some (t, early) \<and>
           (el < max_wait \<longrightarrow> t < max_wait + D) \<and> (\<not> el < max_wait \<longrightarrow> t = el) \<and>
           (\<not> early \<longrightarrow> max_wait \<le> t)"
  using assms
proof (induction polls arbitrary: el)
  case Nil
  then show ?case by auto
next
  case (Cons p polls)
  obtain s a where p: "p = (s, a)" by (cases p)
  from Cons.prems(1) p have s: "1/10 \<le> s" "s \<le> D"
    and rest: "\<forall>p \<in> set polls. 1/10 \<le> fst p \<and> fst p \<le> D"
    by simp_all
  show ?case
  proof (cases "el < max_wait")
    case False
    then show ?thesis by (auto simp: p)
  next
    case True
    show ?thesis
    proof (cases a)
      case False
      with True s show ?thesis by (auto simp: p)
    next
      case active: True
      have "max_wait \<le> (el + s) + real (length polls) / 10"
        using Cons.prems(2) s(1) by (simp add: field_simps)
      from Cons.IH [OF rest this]
      obtain t early where r: "drain_wait max_wait (el + s) polls = Some (t, early)"
        and b1: "el + s < max_wait \<longrightarrow> t < max_wait + D"
        and b2: "\<not> el + s < max_wait \<longrightarrow> t = el + s"
        and b3: "\<not> early \<longrightarrow> max_wait \<le> t"
        by blast
      have "t < max_wait + D"
        using b1 b2 True s(2) by (cases "el + s < max_wait") simp_all
      with r b3 True active show ?thesis by (simp add: p)
    qed
  qed
qed

lemma drain_wait_early:
  assumes "\<forall>p \<in> set pre. snd p \<and> 0 \<le> fst p"
    and "el + sum_list (map fst pre) < max_wait"
  shows "drain_wait max_wait el (pre @ (s, False) # later)
           = Some (el + sum_list (map fst pre) + s, True)"
  using assms
proof (induction pre arbitrary: el)
  case Nil
  then show ?case by simp
next
  case (Cons p pre)
  obtain s' a where p: "p = (s', a)" by (cases p)
  from Cons.prems(1) p have a: "a" and s': "0 \<le> s'"
    and rest: "\<forall>p \<in> set pre. snd p \<and> 0 \<le> fst p"
    by simp_all
  have "0 \<le> sum_list (map fst pre)"
    using rest by (intro sum_list_nonneg) auto
  with Cons.prems(2) p s' have el: "el < max_wait" by simp
  have "(el + s') + sum_list (map fst pre) < max_wait"
    using Cons.prems(2) p by (simp add: add.assoc)
  from Cons.IH [OF rest this] el a show ?case
    by (simp add: p add.assoc)
qed

text \<open>
  C9 (as amended). The drain loop polls: it tests the elapsed time, sleeps, then reads
  the session flag. If every iteration takes at least the 0.1 s of the sleep and at
  most \<open>D\<close> seconds, the loop terminates, even if the session is never marked inactive
  (here: once the iterations observed cover the timeout), and it is left less than
  \<open>D\<close> seconds after the drain timeout, at or after the timeout when it is not left
  early. It is left early by the first poll that finds the typing session inactive,
  provided the timeout had not passed when that iteration began.
\<close>

theorem drain_wait_terminates_within_one_poll_of_timeout:
  assumes "\<forall>p \<in> set polls. 1/10 \<le> fst p \<and> fst p \<le> D"
    and "0 < max_wait_time"
    and "max_wait_time \<le> real (length polls) / 10"
  shows "(\<exists>t early. drain_wait max_wait_time 0 polls = Some (t, early) \<and>
            t < max_wait_time + D \<and> (\<not> early \<longrightarrow> max_wait_time \<le> t)) \<and>
         (\<forall>pre s later.
            polls = pre @ (s, False) # later \<and> (\<forall>p \<in> set pre. snd p) \<and>
            sum_list (map fst pre) < max_wait_time \<longrightarrow>
            drain_wait max_wait_time 0 polls = Some (sum_list (map fst pre) + s, True))"
proof
  have "max_wait_time \<le> 0 + real (length polls) / 10" using assms(3) by simp
  from drain_wait_bound [OF assms(1) this] assms(2)
  show "\<exists>t early. drain_wait max_wait_time 0 polls = Some (t, early) \<and>
            t < max_wait_time + D \<and> (\<not> early \<longrightarrow> max_wait_time \<le> t)"
    by auto
next
  show "\<forall>pre s later.
            polls = pre @ (s, False) # later \<and> (\<forall>p \<in> set pre. snd p) \<and>
            sum_list (map fst pre) < max_wait_time \<longrightarrow>
            drain_wait max_wait_time 0 polls = Some (sum_list (map fst pre) + s, True)"
  proof (intro allI impI)
    fix pre s later
    assume a: "polls = pre @ (s, False) # later \<and> (\<forall>p \<in> set pre. snd p) \<and>
            sum_list (map fst pre) < max_wait_time"
    have "\<forall>p \<in> set pre. snd p \<and> 0 \<le> fst p"
    proof
      fix p
      assume p: "p \<in> set pre"
      with a have "snd p" by blast
      moreover from p a have "p \<in> set polls" by simp
      with assms(1) have "1/10 \<le> fst p" by blast
      then have "0 \<le> fst p" by simp
      ultimately show "snd p \<and> 0 \<le> fst p" by blast
    qed
    moreover have "0 + sum_list (map fst pre) < max_wait_time" using a by simp
    ultimately have "drain_wait max_wait_time 0 (pre @ (s, False) # later)
        = Some (0 + sum_list (map fst pre) + s, True)"
      by (rule drain_wait_early)
    with a show "drain_wait max_wait_time 0 polls = Some (sum_list (map fst pre) + s, True)"
      by simp
  qed
qed

theorem drain_wait_terminates_within_one_poll_of_timeout_witness:
  "drain_wait 10 0 (replicate 100 (1/10, True)) \<noteq> None \<and>
   drain_wait 10 0 ((1/10, True) # (3/20, False) # replicate 98 (1/10, True))
     = Some (1/4, True)"
proof -
  let ?polls = "(1/10 :: real, True) # (3/20, False) # replicate 98 (1/10, True)"
  have 1: "\<forall>p \<in> set (replicate 100 (1/10 :: real, True)). 1/10 \<le> fst p \<and> fst p \<le> 1/10"
    by simp
  have 2: "(0::real) < 10" by simp
  have 3: "(10::real) \<le> real (length (replicate 100 (1/10 :: real, True))) / 10" by simp
  from drain_wait_terminates_within_one_poll_of_timeout [OF 1 2 3]
  have "\<exists>t early. drain_wait 10 0 (replicate 100 (1/10, True)) = Some (t, early) \<and>
            t < 10 + 1/10 \<and> (\<not> early \<longrightarrow> 10 \<le> t)"
    by (rule conjunct1)
  then obtain t early where "drain_wait 10 0 (replicate 100 (1/10, True)) = Some (t, early)"
    by blast
  then have A: "drain_wait 10 0 (replicate 100 (1/10, True)) \<noteq> None"
    by (simp only: option.distinct not_False_eq_True)
  have 4: "\<forall>p \<in> set ?polls. 1/10 \<le> fst p \<and> fst p \<le> 3/20" by simp
  have 5: "(10::real) \<le> real (length ?polls) / 10" by simp
  from drain_wait_terminates_within_one_poll_of_timeout [OF 4 2 5]
  have "\<forall>pre s later.
            ?polls = pre @ (s, False) # later \<and> (\<forall>p \<in> set pre. snd p) \<and>
            sum_list (map fst pre) < 10 \<longrightarrow>
            drain_wait 10 0 ?polls = Some (sum_list (map fst pre) + s, True)"
    by (rule conjunct2)
  then have "?polls = [(1/10, True)] @ (3/20, False) # replicate 98 (1/10, True) \<and>
            (\<forall>p \<in> set [(1/10 :: real, True)]. snd p) \<and>
            sum_list (map fst [(1/10 :: real, True)]) < 10 \<longrightarrow>
            drain_wait 10 0 ?polls = Some (sum_list (map fst [(1/10 :: real, True)]) + 3/20, True)"
    by blast
  moreover have "?polls = [(1/10, True)] @ (3/20, False) # replicate 98 (1/10, True)"
    by simp
  moreover have "(\<forall>p \<in> set [(1/10 :: real, True)]. snd p) \<and>
      sum_list (map fst [(1/10 :: real, True)]) < 10"
    by simp
  moreover have "sum_list (map fst [(1/10 :: real, True)]) + 3/20 = 1/4"
    by simp
  ultimately have B: "drain_wait 10 0 ?polls = Some (1/4, True)"
    by metis
  from A B show ?thesis by (rule conjI)
qed

text \<open>
  With a timeout that is not a multiple of the polling sleep the loop is left after the
  timeout: with \<open>max_wait_time = 0.25\<close> and sleeps of exactly 0.1 s it is left at 0.3 s.
\<close>

theorem drain_wait_overshoots_timeout_counterexample:
  "drain_wait (1/4) 0 [(1/10, True), (1/10, True), (1/10, True)] = Some (3/10, False) \<and>
   \<not> (3/10 \<le> (1/4 :: real))"
  by simp

end
